theory Spec2Isabelle
  imports Main "HOL-Library.Multiset"
begin

section \<open>Exceptions\<close>

text \<open>
  The exceptions of \<^verbatim>\<open>create_overview.py\<close> that no handler of the script catches, and
  \<^verbatim>\<open>sys.exit(n)\<close>. A function that can raise returns \<open>error + 'a\<close>.
\<close>

datatype error =
    ValueError
  | IndexError
  | TypeError
  | AttributeError
  | KeyError
  | UnicodeDecodeError
  | SystemExit nat

section \<open>The library functions the script calls\<close>

subsection \<open>\<^verbatim>\<open>posixpath\<close>\<close>

text \<open>
  The script imports \<^verbatim>\<open>pwd\<close>, so it runs on POSIX only and \<^verbatim>\<open>os.path\<close> is
  \<^verbatim>\<open>posixpath\<close>. The current working directory, which \<^verbatim>\<open>abspath\<close> reads from the
  process, is the explicit argument \<open>cwd\<close>.
\<close>

definition startswith :: "string \<Rightarrow> string \<Rightarrow> bool" where
  "startswith s p = (take (length p) s = p)"

definition endswith :: "string \<Rightarrow> string \<Rightarrow> bool" where
  "endswith s p = (length p \<le> length s \<and> drop (length s - length p) s = p)"

text \<open>\<^verbatim>\<open>s.split('/')\<close>: never the empty list, \<^verbatim>\<open>''.split('/') == ['']\<close>.\<close>

fun split_sep :: "string \<Rightarrow> string list" where
  "split_sep [] = [[]]"
| "split_sep (c # cs) =
     (if c = CHR ''/'' then [] # split_sep cs
      else (case split_sep cs of [] \<Rightarrow> [[c]] | x # xs \<Rightarrow> (c # x) # xs))"

text \<open>\<^verbatim>\<open>'/'.join(comps)\<close>.\<close>

fun join_sep :: "string list \<Rightarrow> string" where
  "join_sep [] = []"
| "join_sep [x] = x"
| "join_sep (x # y # ys) = x @ ''/'' @ join_sep (y # ys)"

text \<open>\<^verbatim>\<open>os.path.join(a, b)\<close>.\<close>

definition join :: "string \<Rightarrow> string \<Rightarrow> string" where
  "join a b =
     (if startswith b ''/'' then b
      else if a = [] \<or> endswith a ''/'' then a @ b
      else a @ ''/'' @ b)"

text \<open>\<^verbatim>\<open>os.path.basename(p)\<close>: what follows the last slash.\<close>

definition basename :: "string \<Rightarrow> string" where
  "basename p = rev (takeWhile (\<lambda>c. c \<noteq> CHR ''/'') (rev p))"

text \<open>One round of the loop of \<^verbatim>\<open>normpath\<close> over the components.\<close>

definition norm_step :: "nat \<Rightarrow> string list \<Rightarrow> string \<Rightarrow> string list" where
  "norm_step initial_slashes new_comps comp' =
     (if comp' = [] \<or> comp' = ''.'' then new_comps
      else if comp' \<noteq> ''..'' \<or> (initial_slashes = 0 \<and> new_comps = [])
              \<or> (new_comps \<noteq> [] \<and> last new_comps = ''..'')
           then new_comps @ [comp']
      else if new_comps \<noteq> [] then butlast new_comps
      else new_comps)"

definition normpath :: "string \<Rightarrow> string" where
  "normpath path =
     (if path = [] then ''.''
      else
        let initial_slashes =
              (if startswith path ''/''
               then (if startswith path ''//'' \<and> \<not> startswith path ''///'' then 2 else 1)
               else (0::nat));
            comps = foldl (norm_step initial_slashes) [] (split_sep path);
            p = replicate initial_slashes CHR ''/'' @ join_sep comps
        in if p = [] then ''.'' else p)"

definition abspath :: "string \<Rightarrow> string \<Rightarrow> string" where
  "abspath cwd path = normpath (if startswith path ''/'' then path else join cwd path)"

text \<open>
  \<^verbatim>\<open>os.path.commonprefix([a, b])\<close> on two lists of components: the longest list that both
  start with.
\<close>

fun commonprefix :: "string list \<Rightarrow> string list \<Rightarrow> string list" where
  "commonprefix (x # xs) (y # ys) = (if x = y then x # commonprefix xs ys else [])"
| "commonprefix _ _ = []"

text \<open>\<^verbatim>\<open>os.path.relpath(path, start)\<close>; it raises \<^verbatim>\<open>ValueError\<close> on the empty path.\<close>

definition relpath :: "string \<Rightarrow> string \<Rightarrow> string \<Rightarrow> error + string" where
  "relpath cwd path start =
     (if path = [] then Inl ValueError
      else
        let start_list = filter (\<lambda>x. x \<noteq> []) (split_sep (abspath cwd start));
            path_list = filter (\<lambda>x. x \<noteq> []) (split_sep (abspath cwd path));
            i = length (commonprefix start_list path_list);
            rel_list = replicate (length start_list - i) ''..'' @ drop i path_list
        in if rel_list = [] then Inr ''.'' else Inr (foldl join (hd rel_list) (tl rel_list)))"

subsection \<open>\<^verbatim>\<open>fnmatch\<close>\<close>

text \<open>
  \<^verbatim>\<open>fnmatch.fnmatch(name, pat)\<close> translates the pattern to a regular expression and
  matches the whole name against it (on POSIX \<^verbatim>\<open>normcase\<close> changes nothing). The
  translation is a list of items: \<^verbatim>\<open>*\<close>, \<^verbatim>\<open>?\<close>, a bracket expression, or one literal
  character. A bracket expression is kept as its negation flag and its chunks: every
  character of a chunk is in the set, and so is every character between the last
  character of a chunk and the first of the next one (a range).
\<close>

datatype glob_item = Star | AnyChar | Lit char | CharClass bool "string list"

text \<open>
  The scan for the closing bracket: after an optional \<^verbatim>\<open>!\<close> and an optional \<^verbatim>\<open>]\<close>, up
  to the next \<^verbatim>\<open>]\<close>. The result is the text between the brackets and what follows the
  closing one; \<open>None\<close> when nothing closes the bracket.
\<close>

definition skip_char :: "char \<Rightarrow> string \<Rightarrow> string \<times> string" where
  "skip_char x r = (if r \<noteq> [] \<and> hd r = x then ([x], tl r) else ([], r))"

definition find_close :: "string \<Rightarrow> (string \<times> string) option" where
  "find_close r =
     (case skip_char CHR ''!'' r of (pre1, r1) \<Rightarrow>
       (case skip_char CHR '']'' r1 of (pre2, r2) \<Rightarrow>
         (case dropWhile (\<lambda>c. c \<noteq> CHR '']'') r2 of
            [] \<Rightarrow> None
          | _ # rest \<Rightarrow> Some (pre1 @ pre2 @ takeWhile (\<lambda>c. c \<noteq> CHR '']'') r2, rest))))"

text \<open>
  Cutting the set at its range hyphens: the first hyphen is looked for from the second
  character on (from the third when the set starts with \<^verbatim>\<open>!\<close>), each next one from the
  third character after the previous hyphen.
\<close>

fun split_chunks :: "nat \<Rightarrow> string \<Rightarrow> string \<Rightarrow> string list" where
  "split_chunks skip acc [] = [rev acc]"
| "split_chunks skip acc (c # cs) =
     (if c = CHR ''-'' \<and> skip = 0 then rev acc # split_chunks 2 [] cs
      else split_chunks (skip - 1) (c # acc) cs)"

text \<open>A hyphen closing the set is a literal hyphen of the chunk before it.\<close>

definition fix_last :: "string list \<Rightarrow> string list" where
  "fix_last chunks =
     (if 2 \<le> length chunks \<and> last chunks = []
      then butlast (butlast chunks) @ [last (butlast chunks) @ ''-'']
      else chunks)"

text \<open>Empty ranges are removed, from the right.\<close>

fun merge_chunk :: "string \<Rightarrow> string list \<Rightarrow> string list" where
  "merge_chunk c [] = [c]"
| "merge_chunk c (d # ds) =
     (if c \<noteq> [] \<and> d \<noteq> [] \<and> (of_char (hd d) :: nat) < of_char (last c)
      then (butlast c @ tl d) # ds
      else c # d # ds)"

text \<open>
  The set of a bracket expression. The chunks are cut from the whole text between the
  brackets, a leading \<^verbatim>\<open>!\<close> included; the set is negated when what is left after the
  empty ranges are removed starts with \<^verbatim>\<open>!\<close>. When only the \<^verbatim>\<open>!\<close> is left of the first
  chunk, the hyphen that follows it is a literal one.
\<close>

definition char_class :: "string \<Rightarrow> glob_item" where
  "char_class stuff =
     (let chunks =
            (if CHR ''-'' \<notin> set stuff then [stuff]
             else foldr merge_chunk
                    (fix_last (split_chunks (if startswith stuff ''!'' then 2 else 1) [] stuff))
                    [])
      in case chunks of
           [] \<Rightarrow> CharClass False []
         | c # cs \<Rightarrow>
             if startswith c ''!'' then
               CharClass True
                 (if tl c = [] \<and> cs \<noteq> [] then (''-'' @ hd cs) # tl cs else tl c # cs)
             else CharClass False chunks)"

lemma skip_char_length: "skip_char x r = (pre, r') \<Longrightarrow> length r' \<le> length r"
  by (cases r) (auto simp: skip_char_def split: if_splits)

lemma dropWhile_Cons_length: "dropWhile P xs = y # ys \<Longrightarrow> length ys < length xs"
  using length_dropWhile_le [of P xs] by simp

lemma find_close_shorter:
  assumes "find_close r = Some (stuff, rest)"
  shows "length rest < Suc (length r)"
proof -
  obtain pre1 r1 where s1: "skip_char CHR ''!'' r = (pre1, r1)"
    by (cases "skip_char CHR ''!'' r")
  obtain pre2 r2 where s2: "skip_char CHR '']'' r1 = (pre2, r2)"
    by (cases "skip_char CHR '']'' r1")
  from assms s1 s2 obtain y where "dropWhile (\<lambda>c. c \<noteq> CHR '']'') r2 = y # rest"
    by (simp add: find_close_def split: list.splits)
  then have "length rest < length r2"
    by (rule dropWhile_Cons_length)
  moreover have "length r2 \<le> length r1" "length r1 \<le> length r"
    using s1 s2 by (auto dest: skip_char_length)
  ultimately show ?thesis by simp
qed

text \<open>Consecutive \<^verbatim>\<open>*\<close> are compressed into one.\<close>

fun add_star :: "glob_item list \<Rightarrow> glob_item list" where
  "add_star (Star # res) = Star # res"
| "add_star res = Star # res"

function translate :: "string \<Rightarrow> glob_item list" where
  "translate [] = []"
| "translate (c # cs) =
     (if c = CHR ''*'' then add_star (translate cs)
      else if c = CHR ''?'' then AnyChar # translate cs
      else if c = CHR ''['' then
        (case find_close cs of
           None \<Rightarrow> Lit CHR ''['' # translate cs
         | Some (stuff, rest) \<Rightarrow> char_class stuff # translate rest)
      else Lit c # translate cs)"
  by pat_completeness auto
termination
  by (relation "measure length") (auto dest: find_close_shorter)

text \<open>Membership in a bracket expression's set.\<close>

fun in_ranges :: "char \<Rightarrow> string list \<Rightarrow> bool" where
  "in_ranges c (a # b # rest) =
     ((a \<noteq> [] \<and> b \<noteq> [] \<and> (of_char (last a) :: nat) \<le> of_char c
         \<and> (of_char c :: nat) \<le> of_char (hd b))
      \<or> in_ranges c (b # rest))"
| "in_ranges c _ = False"

definition in_class :: "char \<Rightarrow> string list \<Rightarrow> bool" where
  "in_class c chunks = (c \<in> set (concat chunks) \<or> in_ranges c chunks)"

text \<open>The whole name against the translated pattern.\<close>

fun re_match :: "glob_item list \<Rightarrow> string \<Rightarrow> bool" where
  "re_match [] s = (s = [])"
| "re_match (Star # res) [] = re_match res []"
| "re_match (Star # res) (c # s) = (re_match res (c # s) \<or> re_match (Star # res) s)"
| "re_match (AnyChar # res) [] = False"
| "re_match (AnyChar # res) (c # s) = re_match res s"
| "re_match (Lit x # res) [] = False"
| "re_match (Lit x # res) (c # s) = (x = c \<and> re_match res s)"
| "re_match (CharClass neg chunks # res) [] = False"
| "re_match (CharClass neg chunks # res) (c # s) =
     ((in_class c chunks \<noteq> neg) \<and> re_match res s)"

definition fnmatch :: "string \<Rightarrow> string \<Rightarrow> bool" where
  "fnmatch name pat = re_match (translate pat) name"

section \<open>The Pattern Matcher\<close>

text \<open>\<^verbatim>\<open>any(fnmatch(rel_path, p) or fnmatch(base_name, p) for p in patterns)\<close>.\<close>

definition any_match :: "string \<Rightarrow> string \<Rightarrow> string list \<Rightarrow> bool" where
  "any_match rel_path base_name patterns =
     list_ex (\<lambda>pattern. fnmatch rel_path pattern \<or> fnmatch base_name pattern) patterns"

definition should_process ::
  "string \<Rightarrow> string \<Rightarrow> string \<Rightarrow> string list \<Rightarrow> string list \<Rightarrow> error + bool" where
  "should_process cwd path root_dir include_patterns ignore_patterns =
     (case relpath cwd path root_dir of
        Inl e \<Rightarrow> Inl e
      | Inr rel_path \<Rightarrow>
          let base_name = basename path in
          if rel_path = ''.'' then Inr True
          else if include_patterns \<noteq> []
                  \<and> \<not> any_match rel_path base_name include_patterns then Inr False
          else if any_match rel_path base_name ignore_patterns then Inr False
          else Inr True)"

section \<open>The description service\<close>

text \<open>
  What \<^verbatim>\<open>requests.post\<close> followed by \<^verbatim>\<open>raise_for_status()\<close> and \<^verbatim>\<open>json()\<close> can give:
  one of the exceptions of \<^verbatim>\<open>requests\<close> (an answer that is no JSON raises a
  \<^verbatim>\<open>RequestException\<close> too), or the decoded JSON document.
\<close>

datatype json =
    JNull
  | JBool bool
  | JNum int
  | JStr string
  | JArr "json list"
  | JObj "(string \<times> json) list"

datatype http_reply =
    HTTPError
  | ConnectionError
  | Timeout
  | RequestException
  | Reply json

definition ebind :: "error + 'a \<Rightarrow> ('a \<Rightarrow> error + 'b) \<Rightarrow> error + 'b" where
  "ebind m f = (case m of Inl e \<Rightarrow> Inl e | Inr x \<Rightarrow> f x)"

text \<open>\<^verbatim>\<open>v[key]\<close> for a string key: only a dict takes one.\<close>

fun subscript :: "json \<Rightarrow> string \<Rightarrow> error + json" where
  "subscript (JObj kvs) key = (case map_of kvs key of None \<Rightarrow> Inl KeyError | Some v \<Rightarrow> Inr v)"
| "subscript _ key = Inl TypeError"

text \<open>
  \<^verbatim>\<open>v[0]\<close>: the first element of a list or the first character of a string; a decoded
  JSON object has string keys only, so \<^verbatim>\<open>0\<close> is never one of them.
\<close>

fun subscript0 :: "json \<Rightarrow> error + json" where
  "subscript0 (JArr []) = Inl IndexError"
| "subscript0 (JArr (v # vs)) = Inr v"
| "subscript0 (JStr []) = Inl IndexError"
| "subscript0 (JStr (c # cs)) = Inr (JStr [c])"
| "subscript0 (JObj kvs) = Inl KeyError"
| "subscript0 _ = Inl TypeError"

text \<open>\<^verbatim>\<open>v.get(key, default)\<close>: a method of dicts only.\<close>

fun dict_get :: "json \<Rightarrow> string \<Rightarrow> json \<Rightarrow> error + json" where
  "dict_get (JObj kvs) key dflt = (case map_of kvs key of None \<Rightarrow> Inr dflt | Some v \<Rightarrow> Inr v)"
| "dict_get _ key dflt = Inl AttributeError"

text \<open>\<^verbatim>\<open>str.isspace\<close> on the code points below 256, and \<^verbatim>\<open>str.strip()\<close>.\<close>

definition isspace :: "char \<Rightarrow> bool" where
  "isspace c =
     (let n = (of_char c :: nat)
      in (9 \<le> n \<and> n \<le> 13) \<or> (28 \<le> n \<and> n \<le> 32) \<or> n = 133 \<or> n = 160)"

definition strip :: "string \<Rightarrow> string" where
  "strip s = rev (dropWhile isspace (rev (dropWhile isspace s)))"

fun json_strip :: "json \<Rightarrow> error + string" where
  "json_strip (JStr s) = Inr (strip s)"
| "json_strip _ = Inl AttributeError"

definition newline :: string where
  "newline = [CHR 0x0A]"

definition main_prompt :: string where
  "main_prompt =
     ''Provide a concise description of the following Python file, focusing on the filename, its path, ''
     @ ''its purpose, and key variables with their purposes. Do not include unnecessary explanations of open-source platforms or general concepts.''"

definition user_content :: "string \<Rightarrow> string option \<Rightarrow> string" where
  "user_content file_content partial_prompt =
     (case partial_prompt of
        None \<Rightarrow> main_prompt
      | Some p \<Rightarrow> if p = [] then main_prompt else p @ newline @ main_prompt)
     @ newline @ newline @ ''```python'' @ newline @ file_content @ newline @ ''```''"

type_synonym usage_info = "(string \<times> json) list"

text \<open>The statements of the \<^verbatim>\<open>try\<close> block after \<^verbatim>\<open>data = response.json()\<close>.\<close>

definition read_reply :: "json \<Rightarrow> error + string \<times> usage_info" where
  "read_reply data =
     ebind (subscript data ''choices'') (\<lambda>choices.
     ebind (subscript0 choices) (\<lambda>choice.
     ebind (subscript choice ''message'') (\<lambda>message.
     ebind (subscript message ''content'') (\<lambda>content.
     ebind (json_strip content) (\<lambda>description.
     ebind (dict_get data ''usage'' (JObj [])) (\<lambda>usage.
     ebind (dict_get usage ''prompt_tokens'' (JNum 0)) (\<lambda>prompt_tokens.
     ebind (dict_get usage ''completion_tokens'' (JNum 0)) (\<lambda>completion_tokens.
     ebind (dict_get usage ''total_tokens'' (JNum 0)) (\<lambda>total_tokens.
       Inr (description,
            [(''prompt_tokens'', prompt_tokens),
             (''completion_tokens'', completion_tokens),
             (''total_tokens'', total_tokens)]))))))))))"

definition fallback_description :: string where
  "fallback_description = ''Description unavailable due to an API error.''"

text \<open>
  \<^verbatim>\<open>get_file_description\<close>. The network is the function \<open>post\<close>, from the API key and
  the user message to what the request gives. The four \<^verbatim>\<open>requests\<close> exceptions and
  \<^verbatim>\<open>KeyError\<close> have handlers, which fall through to the fallback; any other exception
  leaves the function.
\<close>

definition get_file_description ::
  "(string \<Rightarrow> string \<Rightarrow> http_reply) \<Rightarrow> string \<Rightarrow> string \<Rightarrow> string option
     \<Rightarrow> error + string \<times> usage_info" where
  "get_file_description post file_content api_key partial_prompt =
     (case post api_key (user_content file_content partial_prompt) of
        Reply data \<Rightarrow>
          (case read_reply data of
             Inr result \<Rightarrow> Inr result
           | Inl KeyError \<Rightarrow> Inr (fallback_description, [])
           | Inl e \<Rightarrow> Inl e)
      | HTTPError \<Rightarrow> Inr (fallback_description, [])
      | ConnectionError \<Rightarrow> Inr (fallback_description, [])
      | Timeout \<Rightarrow> Inr (fallback_description, [])
      | RequestException \<Rightarrow> Inr (fallback_description, []))"

section \<open>The file tree\<close>

text \<open>
  What the two reporters see of the file system. Reading a file gives its text, fails
  with an \<^verbatim>\<open>OSError\<close>, or fails to decode as UTF-8. \<^verbatim>\<open>os.stat\<close> with
  \<^verbatim>\<open>pwd.getpwuid\<close> gives the permission string and the owner's name (\<open>None\<close> when the
  user id has no entry, a \<^verbatim>\<open>KeyError\<close>), fails with \<^verbatim>\<open>FileNotFoundError\<close> or
  \<^verbatim>\<open>PermissionError\<close>, or fails with another \<^verbatim>\<open>OSError\<close>.

  An entry is a file (whatever \<^verbatim>\<open>is_dir()\<close> is false for), a directory with its entries
  in the order \<^verbatim>\<open>scandir\<close> yields them, or a directory \<^verbatim>\<open>os.walk\<close> lists but does not
  enter (a symbolic link to a directory, or a directory whose \<^verbatim>\<open>scandir\<close> fails).
\<close>

datatype read_result = Text string | ReadOSError | ReadDecodeError

datatype stat_result = Stat string "string option" | StatFailed | StatOSError

datatype fsnode =
    File string stat_result read_result
  | Dir string stat_result "fsnode list"
  | ClosedDir string stat_result

fun name_of :: "fsnode \<Rightarrow> string" where
  "name_of (File n st rd) = n"
| "name_of (Dir n st sub) = n"
| "name_of (ClosedDir n st) = n"

fun stat_of :: "fsnode \<Rightarrow> stat_result" where
  "stat_of (File n st rd) = st"
| "stat_of (Dir n st sub) = st"
| "stat_of (ClosedDir n st) = st"

fun isdir :: "fsnode \<Rightarrow> bool" where
  "isdir (File n st rd) = False"
| "isdir (Dir n st sub) = True"
| "isdir (ClosedDir n st) = True"

text \<open>The \<^verbatim>\<open>dirs\<close> and \<^verbatim>\<open>nondirs\<close> of one step of \<^verbatim>\<open>os.walk\<close>.\<close>

definition dirs_of :: "fsnode list \<Rightarrow> fsnode list" where
  "dirs_of entries = filter isdir entries"

definition nondirs_of :: "fsnode list \<Rightarrow> fsnode list" where
  "nondirs_of entries = filter (\<lambda>e. \<not> isdir e) entries"

text \<open>
  \<^verbatim>\<open>dirnames[:] = [d for d in dirnames if should_process(os.path.join(dirpath, d), ...)]\<close>.
  In the definitions below \<open>sp\<close> stands for
  \<^verbatim>\<open>should_process(\<cdot>, root_dir, include_patterns, ignore_patterns)\<close>.
\<close>

fun prune :: "(string \<Rightarrow> error + bool) \<Rightarrow> string \<Rightarrow> string list \<Rightarrow> error + string list" where
  "prune sp dirpath [] = Inr []"
| "prune sp dirpath (d # dirnames) =
     (case sp (join dirpath d) of
        Inl e \<Rightarrow> Inl e
      | Inr keep \<Rightarrow>
          (case prune sp dirpath dirnames of
             Inl e \<Rightarrow> Inl e
           | Inr kept \<Rightarrow> Inr (if keep then d # kept else kept)))"

text \<open>
  The loop \<^verbatim>\<open>for dirpath, dirnames, filenames in os.walk(root_dir)\<close> of both reporters,
  top-down. Each round first prunes \<open>dirnames\<close> in place, then runs the rest of the
  loop's body, \<open>body\<close>, which gives what the round adds to the output;
  \<^verbatim>\<open>os.walk\<close> then enters the directories still in \<open>dirnames\<close>, in the order of the
  listing.
\<close>

fun os_walk ::
  "(string \<Rightarrow> error + bool) \<Rightarrow> (string \<Rightarrow> string list \<Rightarrow> fsnode list \<Rightarrow> error + 'a list)
     \<Rightarrow> string \<Rightarrow> fsnode list \<Rightarrow> error + 'a list"
and walk_subdirs ::
  "(string \<Rightarrow> error + bool) \<Rightarrow> (string \<Rightarrow> string list \<Rightarrow> fsnode list \<Rightarrow> error + 'a list)
     \<Rightarrow> string \<Rightarrow> string list \<Rightarrow> fsnode list \<Rightarrow> error + 'a list"
where
  "os_walk sp body dirpath entries =
     (case prune sp dirpath (map name_of (dirs_of entries)) of
        Inl e \<Rightarrow> Inl e
      | Inr dirnames \<Rightarrow>
          (case body dirpath dirnames entries of
             Inl e \<Rightarrow> Inl e
           | Inr here \<Rightarrow>
               (case walk_subdirs sp body dirpath dirnames entries of
                  Inl e \<Rightarrow> Inl e
                | Inr below \<Rightarrow> Inr (here @ below))))"
| "walk_subdirs sp body dirpath dirnames [] = Inr []"
| "walk_subdirs sp body dirpath dirnames (Dir d st sub # rest) =
     (if d \<in> set dirnames then
        (case os_walk sp body (join dirpath d) sub of
           Inl e \<Rightarrow> Inl e
         | Inr first \<Rightarrow>
             (case walk_subdirs sp body dirpath dirnames rest of
                Inl e \<Rightarrow> Inl e
              | Inr others \<Rightarrow> Inr (first @ others)))
      else walk_subdirs sp body dirpath dirnames rest)"
| "walk_subdirs sp body dirpath dirnames (File n st rd # rest) =
     walk_subdirs sp body dirpath dirnames rest"
| "walk_subdirs sp body dirpath dirnames (ClosedDir n st # rest) =
     walk_subdirs sp body dirpath dirnames rest"

declare os_walk.simps [simp del]

section \<open>The Content Reporter\<close>

text \<open>
  A File Record is the dict \<^verbatim>\<open>file_entry\<close>, its keys in the order of the literal. What
  a file adds to the run is its block of the transcript and its record.
\<close>

type_synonym file_entry = "(string \<times> string) list"

definition truthy :: "string option \<Rightarrow> bool" where
  "truthy s = (case s of None \<Rightarrow> False | Some x \<Rightarrow> x \<noteq> [])"

definition quote :: string where
  "quote = [CHR 0x27]"

text \<open>One round of \<^verbatim>\<open>for filename in filenames\<close>; \<open>None\<close> when the file is skipped.\<close>

definition process_file ::
  "(string \<Rightarrow> error + bool) \<Rightarrow> (string \<Rightarrow> string \<Rightarrow> http_reply) \<Rightarrow> string option
     \<Rightarrow> string option \<Rightarrow> string \<Rightarrow> string \<Rightarrow> read_result
     \<Rightarrow> error + (string \<times> file_entry) option" where
  "process_file sp post api_key partial_prompt dirpath filename rd =
     (let filepath = join dirpath filename in
      case sp filepath of
        Inl e \<Rightarrow> Inl e
      | Inr ok \<Rightarrow>
          if \<not> ok then Inr None
          else if \<not> endswith filename ''.py'' then Inr None
          else
            (case rd of
               ReadOSError \<Rightarrow> Inr None
             | ReadDecodeError \<Rightarrow> Inl UnicodeDecodeError
             | Text file_content \<Rightarrow>
                 if truthy api_key then
                   (case get_file_description post file_content (the api_key) partial_prompt of
                      Inl e \<Rightarrow> Inl e
                    | Inr (description, usage) \<Rightarrow>
                        Inr (Some
                          (quote @ filename @ quote @ newline @ ''**Description:** '' @ description
                             @ newline @ ''``` File path = '' @ filepath @ newline @ newline
                             @ file_content @ newline @ ''```'' @ newline @ newline,
                           [(''filename'', filename), (''filepath'', filepath),
                            (''description'', description), (''content'', file_content)])))
                 else
                   Inr (Some
                     (quote @ filename @ quote @ newline
                        @ ''``` File path = '' @ filepath @ newline @ newline
                        @ file_content @ newline @ ''```'' @ newline @ newline,
                      [(''filename'', filename), (''filepath'', filepath),
                       (''content'', file_content)]))))"

fun process_files ::
  "(string \<Rightarrow> error + bool) \<Rightarrow> (string \<Rightarrow> string \<Rightarrow> http_reply) \<Rightarrow> string option
     \<Rightarrow> string option \<Rightarrow> string \<Rightarrow> fsnode list \<Rightarrow> error + (string \<times> file_entry) list" where
  "process_files sp post api_key partial_prompt dirpath [] = Inr []"
| "process_files sp post api_key partial_prompt dirpath (File filename st rd # rest) =
     (case process_file sp post api_key partial_prompt dirpath filename rd of
        Inl e \<Rightarrow> Inl e
      | Inr r \<Rightarrow>
          (case process_files sp post api_key partial_prompt dirpath rest of
             Inl e \<Rightarrow> Inl e
           | Inr rs \<Rightarrow> Inr (case r of None \<Rightarrow> rs | Some x \<Rightarrow> x # rs)))"
| "process_files sp post api_key partial_prompt dirpath (Dir n st sub # rest) =
     process_files sp post api_key partial_prompt dirpath rest"
| "process_files sp post api_key partial_prompt dirpath (ClosedDir n st # rest) =
     process_files sp post api_key partial_prompt dirpath rest"

text \<open>The body of the reporter's loop after the pruning.\<close>

definition content_body ::
  "(string \<Rightarrow> error + bool) \<Rightarrow> (string \<Rightarrow> string \<Rightarrow> http_reply) \<Rightarrow> string option
     \<Rightarrow> string option \<Rightarrow> string \<Rightarrow> string list \<Rightarrow> fsnode list
     \<Rightarrow> error + (string \<times> file_entry) list" where
  "content_body sp post api_key partial_prompt dirpath dirnames entries =
     (case sp dirpath of
        Inl e \<Rightarrow> Inl e
      | Inr ok \<Rightarrow>
          if \<not> ok then Inr []
          else process_files sp post api_key partial_prompt dirpath (nondirs_of entries))"

text \<open>
  The process's surroundings: the working directory, the clock's
  \<^verbatim>\<open>strftime("%Y%m%d_%H%M%S")\<close>, which output files can be opened and written, the
  listing of a directory (\<open>None\<close> when \<^verbatim>\<open>scandir\<close> fails), the network, the
  environment variables, and the lines of a text file (\<open>Inl\<close> the text of the exception
  when it cannot be read).
\<close>

record world =
  w_cwd :: string
  w_now :: string
  w_writable :: "string \<Rightarrow> bool"
  w_scandir :: "string \<Rightarrow> fsnode list option"
  w_post :: "string \<Rightarrow> string \<Rightarrow> http_reply"
  w_getenv :: "string \<Rightarrow> string option"
  w_readlines :: "string \<Rightarrow> string + string list"

text \<open>
  The first step of \<^verbatim>\<open>os.walk(root_dir)\<close>: the listing of the root. \<^verbatim>\<open>scandir('')\<close>
  fails on every system, and a failing \<^verbatim>\<open>scandir\<close> ends the walk silently.
\<close>

definition walk_root ::
  "world \<Rightarrow> (string \<Rightarrow> error + bool)
     \<Rightarrow> (string \<Rightarrow> string list \<Rightarrow> fsnode list \<Rightarrow> error + 'a list) \<Rightarrow> string
     \<Rightarrow> error + 'a list" where
  "walk_root w sp body root_dir =
     (case (if root_dir = [] then None else w_scandir w root_dir) of
        None \<Rightarrow> Inr []
      | Some entries \<Rightarrow> os_walk sp body root_dir entries)"

text \<open>
  \<^verbatim>\<open>process_all_python_files\<close>: the transcript and \<^verbatim>\<open>overview_data\<close>, the list that
  \<^verbatim>\<open>json.dump\<close> writes. An output file that cannot be written ends the run with
  \<^verbatim>\<open>sys.exit(1)\<close>.
\<close>

definition process_all_python_files ::
  "world \<Rightarrow> string \<Rightarrow> string list \<Rightarrow> string list \<Rightarrow> string option \<Rightarrow> string option
     \<Rightarrow> error + string \<times> file_entry list" where
  "process_all_python_files w root_dir include_patterns ignore_patterns api_key partial_prompt =
     (let timestamp = w_now w;
          output_file_txt = ''all_python_files_'' @ timestamp @ ''.txt'';
          output_file_json = ''all_python_files_'' @ timestamp @ ''.json'';
          sp = (\<lambda>path. should_process (w_cwd w) path root_dir include_patterns ignore_patterns)
      in if \<not> w_writable w output_file_txt then Inl (SystemExit 1)
         else
           (case walk_root w sp (content_body sp (w_post w) api_key partial_prompt) root_dir of
              Inl e \<Rightarrow> Inl e
            | Inr found \<Rightarrow>
                if \<not> w_writable w output_file_json then Inl (SystemExit 1)
                else Inr (concat (map fst found), map snd found)))"

section \<open>The Tree Reporter\<close>

type_synonym entry_info = "(string \<times> string) list"

record directory_info =
  directory :: string
  contents :: "entry_info list"

text \<open>
  One round of \<^verbatim>\<open>for name in dirnames + filenames\<close>: the line of the text and the
  entry's record, \<open>None\<close> when the entry is skipped. An \<^verbatim>\<open>OSError\<close> of \<^verbatim>\<open>os.stat\<close>
  other than the two the inner handler names reaches the outer handler, which exits.
\<close>

definition tree_entry ::
  "(string \<Rightarrow> error + bool) \<Rightarrow> string \<Rightarrow> fsnode \<Rightarrow> error + (string \<times> entry_info) option" where
  "tree_entry sp dirpath e =
     (let name = name_of e;
          full_path = join dirpath name
      in case sp full_path of
           Inl err \<Rightarrow> Inl err
         | Inr ok \<Rightarrow>
             if \<not> ok then Inr None
             else
               (case stat_of e of
                  StatFailed \<Rightarrow> Inr None
                | StatOSError \<Rightarrow> Inl (SystemExit 1)
                | Stat permissions None \<Rightarrow> Inl KeyError
                | Stat permissions (Some owner) \<Rightarrow>
                    Inr (Some
                      (permissions @ '' '' @ owner @ '' '' @ name @ newline,
                       [(''name'', name), (''permissions'', permissions), (''owner'', owner),
                        (''type'', if isdir e then ''directory'' else ''file'')]))))"

fun tree_entries ::
  "(string \<Rightarrow> error + bool) \<Rightarrow> string \<Rightarrow> fsnode list \<Rightarrow> error + (string \<times> entry_info) list" where
  "tree_entries sp dirpath [] = Inr []"
| "tree_entries sp dirpath (e # rest) =
     (case tree_entry sp dirpath e of
        Inl err \<Rightarrow> Inl err
      | Inr r \<Rightarrow>
          (case tree_entries sp dirpath rest of
             Inl err \<Rightarrow> Inl err
           | Inr rs \<Rightarrow> Inr (case r of None \<Rightarrow> rs | Some x \<Rightarrow> x # rs)))"

definition header :: "string \<Rightarrow> string" where
  "header dirpath =
     newline @ ''Directory: '' @ dirpath @ newline
     @ replicate (length dirpath + 11) CHR ''='' @ newline"

text \<open>
  The body of the reporter's loop after the pruning: the section of the text and the
  \<^verbatim>\<open>directory_info\<close> of one directory. \<^verbatim>\<open>dirnames + filenames\<close> is the pruned list of
  directories followed by the files.
\<close>

definition tree_body ::
  "(string \<Rightarrow> error + bool) \<Rightarrow> string \<Rightarrow> string list \<Rightarrow> fsnode list
     \<Rightarrow> error + (string \<times> directory_info) list" where
  "tree_body sp dirpath dirnames entries =
     (case sp dirpath of
        Inl e \<Rightarrow> Inl e
      | Inr ok \<Rightarrow>
          if \<not> ok then Inr []
          else
            (case tree_entries sp dirpath
                    (filter (\<lambda>e. name_of e \<in> set dirnames) (dirs_of entries) @ nondirs_of entries) of
               Inl e \<Rightarrow> Inl e
             | Inr listed \<Rightarrow>
                 Inr [(header dirpath @ concat (map fst listed),
                       \<lparr>directory = dirpath, contents = map snd listed\<rparr>)]))"

definition generate_tree_view ::
  "world \<Rightarrow> string \<Rightarrow> string list \<Rightarrow> string list \<Rightarrow> error + string \<times> directory_info list" where
  "generate_tree_view w root_dir include_patterns ignore_patterns =
     (let timestamp = w_now w;
          output_file_tree = ''directory_tree_'' @ timestamp @ ''.txt'';
          output_file_json = ''directory_tree_'' @ timestamp @ ''.json'';
          sp = (\<lambda>path. should_process (w_cwd w) path root_dir include_patterns ignore_patterns)
      in if \<not> w_writable w output_file_tree then Inl (SystemExit 1)
         else
           (case walk_root w sp (tree_body sp) root_dir of
              Inl e \<Rightarrow> Inl e
            | Inr sections \<Rightarrow>
                if \<not> w_writable w output_file_json then Inl (SystemExit 1)
                else Inr (concat (map fst sections), map snd sections)))"

section \<open>The command line\<close>

text \<open>
  The namespace \<^verbatim>\<open>args\<close> that \<^verbatim>\<open>argparse\<close> returns: a flag is a \<open>bool\<close>, an option
  that was not given is \<open>None\<close>.
\<close>

record args =
  arg_root_dir :: string
  arg_python :: bool
  arg_tree :: bool
  arg_description :: bool
  arg_api :: "string option"
  arg_d :: "string option"
  arg_ignore_dirs :: "string list option"
  arg_ignore_files :: "string list option"
  arg_ignore_patterns :: "string list option"
  arg_ignore_file :: "string option"
  arg_include_dirs :: "string list option"
  arg_include_files :: "string list option"
  arg_include_patterns :: "string list option"

text \<open>
  The records \<^verbatim>\<open>main\<close> itself logs at \<^verbatim>\<open>INFO\<close> or above (the level
  \<^verbatim>\<open>basicConfig\<close> sets), each with its severity.
\<close>

datatype level = INFO | WARNING | ERROR | CRITICAL

type_synonym log = "(level \<times> string) list"

text \<open>\<^verbatim>\<open>a or b\<close> on two optional strings.\<close>

definition py_or :: "string option \<Rightarrow> string option \<Rightarrow> string option" where
  "py_or a b = (if truthy a then a else b)"

text \<open>Lines 332 to 349 of \<^verbatim>\<open>main\<close>: the API key to use.\<close>

definition resolve_api_key ::
  "(string \<Rightarrow> string option) \<Rightarrow> args \<Rightarrow> log \<times> (error + string option)" where
  "resolve_api_key getenv a =
     (let env_api_key =
            py_or (getenv ''OPENAI_API_KEY'') (py_or (getenv ''API_KEY'') (getenv ''api_key''))
      in if arg_description a then
           if truthy (arg_api a) then
             ([(INFO, ''Using OpenAI API key provided via '' @ quote @ ''-api'' @ quote
                      @ '' argument.'')],
              Inr (arg_api a))
           else if truthy env_api_key then
             ([(INFO, ''Using OpenAI API key from environment variables.'')], Inr env_api_key)
           else
             ([(CRITICAL,
                ''An API key is required when using '' @ quote @ ''-description'' @ quote
                @ ''. Provide it via the '' @ quote @ ''-api'' @ quote
                @ '' argument or set it in one of the environment variables: ''
                @ quote @ ''OPENAI_API_KEY'' @ quote @ '', '' @ quote @ ''API_KEY'' @ quote
                @ '', '' @ quote @ ''api_key'' @ quote @ ''.'')],
              Inl (SystemExit 1))
         else ([], Inr None))"

text \<open>\<^verbatim>\<open>if args.x: patterns.extend(args.x)\<close>.\<close>

definition given :: "string list option \<Rightarrow> string list" where
  "given x = (case x of None \<Rightarrow> [] | Some xs \<Rightarrow> xs)"

definition default_ignore_patterns :: "string list" where
  "default_ignore_patterns = [''.*'', ''__*__'', ''venv'', ''env'', ''__pycache__'']"

text \<open>The patterns of the lines of the ignore file.\<close>

fun ignore_file_patterns :: "string list \<Rightarrow> string list" where
  "ignore_file_patterns [] = []"
| "ignore_file_patterns (line # rest) =
     (let line' = strip line
      in if line' \<noteq> [] \<and> \<not> startswith line' ''#''
         then line' # ignore_file_patterns rest
         else ignore_file_patterns rest)"

text \<open>Lines 356 to 380 of \<^verbatim>\<open>main\<close>: the ignore list.\<close>

definition collect_ignore_patterns ::
  "(string \<Rightarrow> string + string list) \<Rightarrow> args \<Rightarrow> log \<times> (error + string list)" where
  "collect_ignore_patterns readlines a =
     (let ignore_patterns =
            default_ignore_patterns @ given (arg_ignore_patterns a) @ given (arg_ignore_dirs a)
            @ given (arg_ignore_files a)
      in if truthy (arg_ignore_file a) then
           (case readlines (the (arg_ignore_file a)) of
              Inr file_lines \<Rightarrow> ([], Inr (ignore_patterns @ ignore_file_patterns file_lines))
            | Inl e \<Rightarrow>
                ([(ERROR, ''Failed to read ignore file '' @ the (arg_ignore_file a) @ '': '' @ e)],
                 Inl (SystemExit 1)))
         else ([], Inr ignore_patterns))"

text \<open>Lines 382 to 392 of \<^verbatim>\<open>main\<close>: the include list.\<close>

definition collect_include_patterns :: "args \<Rightarrow> string list" where
  "collect_include_patterns a =
     given (arg_include_patterns a) @ given (arg_include_dirs a) @ given (arg_include_files a)"

record run_output =
  python_output :: "(string \<times> file_entry list) option"
  tree_output :: "(string \<times> directory_info list) option"

text \<open>
  \<^verbatim>\<open>main\<close> after \<^verbatim>\<open>parse_args\<close>: the log of \<^verbatim>\<open>main\<close>'s own records, and either the
  exception or exit that ends the run or what the reporters that ran have written.
\<close>

definition main :: "world \<Rightarrow> args \<Rightarrow> log \<times> (error + run_output)" where
  "main w a =
     (case resolve_api_key (w_getenv w) a of
        (log1, Inl e) \<Rightarrow> (log1, Inl e)
      | (log1, Inr api_key) \<Rightarrow>
          let log2 = log1
                @ (if arg_description a then [(INFO, ''Description generation enabled.'')] else [])
                @ [(INFO, ''Root directory to scan: '' @ arg_root_dir a)]
          in (case collect_ignore_patterns (w_readlines w) a of
                (log3, Inl e) \<Rightarrow> (log2 @ log3, Inl e)
              | (log3, Inr ignore_patterns) \<Rightarrow>
                  let include_patterns = collect_include_patterns a
                  in (log2 @ log3,
                      ebind (if arg_python a
                             then ebind (process_all_python_files w (arg_root_dir a)
                                           include_patterns ignore_patterns api_key (arg_d a))
                                    (\<lambda>out. Inr (Some out))
                             else Inr None) (\<lambda>py.
                      ebind (if arg_tree a
                             then ebind (generate_tree_view w (arg_root_dir a)
                                           include_patterns ignore_patterns)
                                    (\<lambda>out. Inr (Some out))
                             else Inr None) (\<lambda>tr.
                        Inr \<lparr>python_output = py, tree_output = tr\<rparr>)))))"

section \<open>What the claims speak of\<close>

text \<open>
  The notions of the specification that the code has no function for, written after the
  specification's words, to compare the reporters with.
\<close>

subsection \<open>The files a content scan is to record\<close>

text \<open>
  The readable files under the root, within directories that were not pruned, that pass
  the Pattern Matcher and end in \<^verbatim>\<open>.py\<close>: the files of a directory that qualify, and
  those of each of its subdirectories that passes the Matcher.
\<close>

fun readable :: "read_result \<Rightarrow> bool" where
  "readable (Text c) = True"
| "readable ReadOSError = False"
| "readable ReadDecodeError = False"

fun matched_files :: "(string \<Rightarrow> error + bool) \<Rightarrow> string \<Rightarrow> fsnode list \<Rightarrow> string list" where
  "matched_files sp dirpath [] = []"
| "matched_files sp dirpath (File n st rd # rest) =
     (if sp (join dirpath n) = Inr True \<and> endswith n ''.py'' \<and> readable rd
      then [join dirpath n] else [])
     @ matched_files sp dirpath rest"
| "matched_files sp dirpath (Dir d st sub # rest) =
     (if sp (join dirpath d) = Inr True then matched_files sp (join dirpath d) sub else [])
     @ matched_files sp dirpath rest"
| "matched_files sp dirpath (ClosedDir d st # rest) = matched_files sp dirpath rest"

subsection \<open>The section of a directory in the tree listing\<close>

text \<open>
  The children of a directory that have a line: those that pass the Matcher and whose
  status lookup succeeds, the directories first and then the files, each group in the
  order of the listing.
\<close>

fun has_stat :: "stat_result \<Rightarrow> bool" where
  "has_stat (Stat permissions owner) = True"
| "has_stat StatFailed = False"
| "has_stat StatOSError = False"

definition passing_children ::
  "(string \<Rightarrow> error + bool) \<Rightarrow> string \<Rightarrow> fsnode list \<Rightarrow> fsnode list" where
  "passing_children sp dirpath entries =
     filter (\<lambda>e. sp (join dirpath (name_of e)) = Inr True \<and> has_stat (stat_of e))
       (dirs_of entries @ nondirs_of entries)"

fun entry_line :: "fsnode \<Rightarrow> string" where
  "entry_line e =
     (case stat_of e of
        Stat permissions (Some owner) \<Rightarrow> permissions @ '' '' @ owner @ '' '' @ name_of e @ newline
      | _ \<Rightarrow> [])"

fun entry_record :: "fsnode \<Rightarrow> entry_info" where
  "entry_record e =
     (case stat_of e of
        Stat permissions (Some owner) \<Rightarrow>
          [(''name'', name_of e), (''permissions'', permissions), (''owner'', owner),
           (''type'', if isdir e then ''directory'' else ''file'')]
      | _ \<Rightarrow> [])"

text \<open>The header, the lines and the record of one directory.\<close>

definition section_of ::
  "(string \<Rightarrow> error + bool) \<Rightarrow> string \<Rightarrow> fsnode list \<Rightarrow> string \<times> directory_info" where
  "section_of sp dirpath entries =
     (header dirpath @ concat (map entry_line (passing_children sp dirpath entries)),
      \<lparr>directory = dirpath,
       contents = map entry_record (passing_children sp dirpath entries)\<rparr>)"

text \<open>
  The directories a scan visits, top-down, each with its listing: the root, and the
  subdirectories that pass the Matcher of every visited directory.
\<close>

fun visited :: "(string \<Rightarrow> error + bool) \<Rightarrow> string \<Rightarrow> fsnode list \<Rightarrow> (string \<times> fsnode list) list"
and visited_below ::
  "(string \<Rightarrow> error + bool) \<Rightarrow> string \<Rightarrow> fsnode list \<Rightarrow> (string \<times> fsnode list) list"
where
  "visited sp dirpath entries = (dirpath, entries) # visited_below sp dirpath entries"
| "visited_below sp dirpath [] = []"
| "visited_below sp dirpath (Dir d st sub # rest) =
     (if sp (join dirpath d) = Inr True then visited sp (join dirpath d) sub else [])
     @ visited_below sp dirpath rest"
| "visited_below sp dirpath (File n st rd # rest) = visited_below sp dirpath rest"
| "visited_below sp dirpath (ClosedDir n st # rest) = visited_below sp dirpath rest"

subsection \<open>Pruned subtrees\<close>

text \<open>
  A listing as a file system gives it: a name is not empty and holds no slash, and no two
  entries of a directory share a name.
\<close>

definition valid_name :: "string \<Rightarrow> bool" where
  "valid_name n = (n \<noteq> [] \<and> CHR ''/'' \<notin> set n)"

fun wf_tree :: "fsnode list \<Rightarrow> bool" where
  "wf_tree [] = True"
| "wf_tree (File n st rd # rest) =
     (valid_name n \<and> n \<notin> set (map name_of rest) \<and> wf_tree rest)"
| "wf_tree (Dir n st sub # rest) =
     (valid_name n \<and> n \<notin> set (map name_of rest) \<and> wf_tree sub \<and> wf_tree rest)"
| "wf_tree (ClosedDir n st # rest) =
     (valid_name n \<and> n \<notin> set (map name_of rest) \<and> wf_tree rest)"

text \<open>The paths of all the entries below a directory, at any depth.\<close>

fun paths_below :: "string \<Rightarrow> fsnode list \<Rightarrow> string list" where
  "paths_below dirpath [] = []"
| "paths_below dirpath (File n st rd # rest) = join dirpath n # paths_below dirpath rest"
| "paths_below dirpath (Dir n st sub # rest) =
     join dirpath n # paths_below (join dirpath n) sub @ paths_below dirpath rest"
| "paths_below dirpath (ClosedDir n st # rest) = join dirpath n # paths_below dirpath rest"

text \<open>
  The paths of all descendants of the subdirectories, at any depth, that the Matcher
  rejects.
\<close>

fun pruned_paths :: "(string \<Rightarrow> error + bool) \<Rightarrow> string \<Rightarrow> fsnode list \<Rightarrow> string list" where
  "pruned_paths sp dirpath [] = []"
| "pruned_paths sp dirpath (File n st rd # rest) = pruned_paths sp dirpath rest"
| "pruned_paths sp dirpath (Dir n st sub # rest) =
     (if sp (join dirpath n) = Inr False then paths_below (join dirpath n) sub else [])
     @ pruned_paths sp (join dirpath n) sub @ pruned_paths sp dirpath rest"
| "pruned_paths sp dirpath (ClosedDir n st # rest) = pruned_paths sp dirpath rest"

subsection \<open>The transcript\<close>

text \<open>
  The block of a record in the transcript: the file name in quotes, the description when
  the record has one, the path marker, and the content between code fences.
\<close>

definition field :: "file_entry \<Rightarrow> string \<Rightarrow> string" where
  "field file_entry key = (case map_of file_entry key of None \<Rightarrow> [] | Some v \<Rightarrow> v)"

definition render_record :: "file_entry \<Rightarrow> string" where
  "render_record file_entry =
     quote @ field file_entry ''filename'' @ quote @ newline
     @ (case map_of file_entry ''description'' of
          None \<Rightarrow> []
        | Some description \<Rightarrow> ''**Description:** '' @ description @ newline)
     @ ''``` File path = '' @ field file_entry ''filepath'' @ newline @ newline
     @ field file_entry ''content'' @ newline @ ''```'' @ newline @ newline"

subsection \<open>Trees on which a scan completes\<close>

text \<open>
  A condition on every entry of a tree, at any depth; a file whose text decodes or whose
  read fails with an \<^verbatim>\<open>OSError\<close>; and an entry whose status lookup succeeds with a
  known owner or fails with \<^verbatim>\<open>FileNotFoundError\<close> or \<^verbatim>\<open>PermissionError\<close>.
\<close>

fun all_nodes :: "(fsnode \<Rightarrow> bool) \<Rightarrow> fsnode list \<Rightarrow> bool" where
  "all_nodes ok [] = True"
| "all_nodes ok (File n st rd # rest) = (ok (File n st rd) \<and> all_nodes ok rest)"
| "all_nodes ok (Dir n st sub # rest) =
     (ok (Dir n st sub) \<and> all_nodes ok sub \<and> all_nodes ok rest)"
| "all_nodes ok (ClosedDir n st # rest) = (ok (ClosedDir n st) \<and> all_nodes ok rest)"

fun decodes :: "fsnode \<Rightarrow> bool" where
  "decodes (File n st ReadDecodeError) = False"
| "decodes e = True"

fun stat_harmless :: "fsnode \<Rightarrow> bool" where
  "stat_harmless e =
     (case stat_of e of
        Stat permissions None \<Rightarrow> False
      | StatOSError \<Rightarrow> False
      | _ \<Rightarrow> True)"

subsection \<open>Notions of the proofs\<close>

text \<open>The keys of a File Record, with and without an API key.\<close>

definition record_keys :: "string option \<Rightarrow> string list" where
  "record_keys api_key =
     (if truthy api_key then [''filename'', ''filepath'', ''description'', ''content'']
      else [''filename'', ''filepath'', ''content''])"

text \<open>The paths of the entries of the visited directories.\<close>

fun kept_paths :: "(string \<Rightarrow> error + bool) \<Rightarrow> string \<Rightarrow> fsnode list \<Rightarrow> string list" where
  "kept_paths sp dirpath [] = []"
| "kept_paths sp dirpath (File n st rd # rest) = join dirpath n # kept_paths sp dirpath rest"
| "kept_paths sp dirpath (Dir n st sub # rest) =
     join dirpath n
     # (if sp (join dirpath n) = Inr True then kept_paths sp (join dirpath n) sub else [])
     @ kept_paths sp dirpath rest"
| "kept_paths sp dirpath (ClosedDir n st # rest) = join dirpath n # kept_paths sp dirpath rest"

text \<open>
  A path at or below the entry \<open>n\<close> of the directory \<open>dirpath\<close>, and what
  \<^verbatim>\<open>os.path.join\<close> puts before a name.
\<close>

definition under :: "string \<Rightarrow> string \<Rightarrow> string \<Rightarrow> bool" where
  "under dirpath n q = (\<exists>r. q = join dirpath n @ r \<and> (r = [] \<or> hd r = CHR ''/''))"

definition pre :: "string \<Rightarrow> string" where
  "pre dirpath = (if dirpath = [] \<or> endswith dirpath ''/'' then dirpath else dirpath @ ''/'')"

text \<open>The paths a section of the tree listing names: its directory and its entries.\<close>

definition section_paths :: "directory_info \<Rightarrow> string set" where
  "section_paths info =
     insert (directory info)
       {join (directory info) n | n e. e \<in> set (contents info) \<and> map_of e ''name'' = Some n}"

section \<open>A sample run\<close>

text \<open>
  A small project, its surroundings and a command line, for the concrete instances of
  the theorems below: the description service times out, no key is in the environment,
  and no ignore file exists. With the default ignore list the directories \<^verbatim>\<open>.hidden\<close>
  and \<^verbatim>\<open>venv\<close> are rejected, while \<^verbatim>\<open>venv/lib.py\<close> itself would pass.
\<close>

definition sample_stat :: stat_result where
  "sample_stat = Stat ''-rw-r--r--'' (Some ''alice'')"

definition sample_tree :: "fsnode list" where
  "sample_tree =
     [File ''a.py'' sample_stat (Text ''x=1''),
      Dir ''.hidden'' sample_stat [File ''b.py'' sample_stat (Text ''y=2'')],
      File ''notes.txt'' sample_stat (Text ''todo''),
      Dir ''src'' sample_stat
        [File ''c.py'' sample_stat (Text ''z=3''), File ''d.py'' sample_stat ReadOSError],
      Dir ''venv'' sample_stat [File ''lib.py'' sample_stat (Text ''v=4'')]]"

definition sample_world :: world where
  "sample_world =
     \<lparr>w_cwd = ''/home/alice'', w_now = ''20240101_120000'', w_writable = (\<lambda>f. True),
      w_scandir = (\<lambda>p. if p = ''proj'' then Some sample_tree else None),
      w_post = (\<lambda>key content. Timeout),
      w_getenv = (\<lambda>v. None),
      w_readlines = (\<lambda>f. Inl ''[Errno 2] No such file or directory'')\<rparr>"

text \<open>
  A directory whose listing gives a file before a subdirectory, and then an entry whose
  status lookup fails with \<^verbatim>\<open>FileNotFoundError\<close> (a dangling symbolic link).
\<close>

definition order_world :: world where
  "order_world =
     sample_world\<lparr>w_scandir := (\<lambda>p. if p = ''proj''
        then Some [File ''a.txt'' sample_stat (Text ''hello''), Dir ''b'' sample_stat [],
              File ''gone.txt'' StatFailed ReadOSError]
        else None)\<rparr>"

text \<open>
  A directory with three source files that pass the Matcher, the second of which is not
  valid UTF-8: reading it raises \<^verbatim>\<open>UnicodeDecodeError\<close>.
\<close>

definition decode_world :: world where
  "decode_world =
     sample_world\<lparr>w_scandir := (\<lambda>p. if p = ''proj''
        then Some [File ''good.py'' sample_stat (Text ''x=1''),
              File ''bad.py'' sample_stat ReadDecodeError,
              File ''late.py'' sample_stat (Text ''y=2'')]
        else None)\<rparr>"

definition sample_args :: args where
  "sample_args =
     \<lparr>arg_root_dir = ''proj'', arg_python = True, arg_tree = False, arg_description = False,
      arg_api = None, arg_d = None, arg_ignore_dirs = None, arg_ignore_files = None,
      arg_ignore_patterns = None, arg_ignore_file = None, arg_include_dirs = None,
      arg_include_files = None, arg_include_patterns = None\<rparr>"

section \<open>Properties of the Pattern Matcher\<close>

lemma commonprefix_same: "commonprefix xs xs = xs"
  by (induction xs) simp_all

lemma relpath_same: "path \<noteq> [] \<Longrightarrow> relpath cwd path path = Inr ''.''"
  by (simp add: relpath_def Let_def commonprefix_same)

lemma should_process_self:
  "path \<noteq> [] \<Longrightarrow> should_process cwd path path include_patterns ignore_patterns = Inr True"
  by (simp add: should_process_def relpath_same)

lemma any_match_set: "any_match rel_path base_name patterns =
    (\<exists>pattern \<in> set patterns. fnmatch rel_path pattern \<or> fnmatch base_name pattern)"
  by (simp add: any_match_def list_ex_iff)

text \<open>
  Claim C3. A path whose relative path is the traversal root (\<^verbatim>\<open>rel_path == '.'\<close>)
  passes for every include list and every ignore list; in particular the root
  directory's own path does, also with an empty include list and the ignore pattern
  \<^verbatim>\<open>*\<close>. (The empty string is no path: \<^verbatim>\<open>relpath\<close> raises \<^verbatim>\<open>ValueError\<close> on it.)
\<close>

theorem should_process_root:
  "(relpath cwd path root_dir = Inr ''.''
      \<longrightarrow> should_process cwd path root_dir include_patterns ignore_patterns = Inr True)
   \<and> (path \<noteq> []
      \<longrightarrow> should_process cwd path path include_patterns ignore_patterns = Inr True)"
  by (simp add: should_process_def relpath_same)

theorem should_process_root_witness:
  "relpath ''/home/user'' ''proj/src/..'' ''proj'' = Inr ''.''
   \<and> should_process ''/home/user'' ''proj/src/..'' ''proj'' [] [''*''] = Inr True
   \<and> ''proj'' \<noteq> []
   \<and> should_process ''/home/user'' ''proj'' ''proj'' [] [''*''] = Inr True
   \<and> fnmatch ''proj'' ''*''"
proof -
  have r: "relpath ''/home/user'' ''proj/src/..'' ''proj'' = Inr ''.''"
    by code_simp
  have m: "fnmatch ''proj'' ''*''"
    by code_simp
  from r m show ?thesis
    using should_process_root [of "''/home/user''" "''proj/src/..''" "''proj''" "[]" "[''*'']"]
      should_process_root [of "''/home/user''" "''proj''" "''proj''" "[]" "[''*'']"]
    by simp
qed

text \<open>
  Claim C1. For a path other than the scan root, when the relative path or the base
  name matches a pattern of the ignore list, \<open>should_process\<close> returns \<open>False\<close>,
  whatever the include list is: ignore overrides include.
\<close>

theorem ignore_wins:
  assumes "relpath cwd path root_dir = Inr rel_path"
    and "rel_path \<noteq> ''.''"
    and "pattern \<in> set ignore_patterns"
    and "fnmatch rel_path pattern \<or> fnmatch (basename path) pattern"
  shows "should_process cwd path root_dir include_patterns ignore_patterns = Inr False"
proof -
  have "any_match rel_path (basename path) ignore_patterns"
    using assms(3,4) unfolding any_match_set by blast
  then show ?thesis
    using assms(1,2) by (simp add: should_process_def Let_def)
qed

theorem ignore_wins_witness:
  "relpath ''/home/user'' ''proj/src/a.py'' ''proj'' = Inr ''src/a.py''
   \<and> ''src/a.py'' \<noteq> ''.''
   \<and> ''a.*'' \<in> set [''venv'', ''a.*'']
   \<and> fnmatch (basename ''proj/src/a.py'') ''a.*''
   \<and> any_match ''src/a.py'' (basename ''proj/src/a.py'') [''*.py'']
   \<and> should_process ''/home/user'' ''proj/src/a.py'' ''proj'' [''*.py''] [''venv'', ''a.*'']
       = Inr False"
proof -
  have r: "relpath ''/home/user'' ''proj/src/a.py'' ''proj'' = Inr ''src/a.py''"
    by code_simp
  have m: "fnmatch (basename ''proj/src/a.py'') ''a.*''"
    by code_simp
  have i: "any_match ''src/a.py'' (basename ''proj/src/a.py'') [''*.py'']"
    by code_simp
  have s: "''a.*'' \<in> set [''venv'', ''a.*'']"
    by simp
  from r m i s show ?thesis
    using ignore_wins [of "''/home/user''" "''proj/src/a.py''" "''proj''" "''src/a.py''"
        "''a.*''" "[''venv'', ''a.*'']" "[''*.py'']"]
    by simp
qed

text \<open>
  Claim C10. The result of \<open>should_process\<close> does not change when the include list
  and the ignore list are permuted.
\<close>

theorem should_process_permutation:
  assumes "mset include_patterns' = mset include_patterns"
    and "mset ignore_patterns' = mset ignore_patterns"
  shows "should_process cwd path root_dir include_patterns' ignore_patterns'
         = should_process cwd path root_dir include_patterns ignore_patterns"
proof -
  have s: "set include_patterns' = set include_patterns"
      "set ignore_patterns' = set ignore_patterns"
    using assms by (auto dest: mset_eq_setD)
  have e: "(include_patterns' = []) = (include_patterns = [])"
    using s(1) by (metis set_empty)
  show ?thesis
    unfolding should_process_def any_match_set s e ..
qed

theorem should_process_permutation_witness:
  "mset [''src*'', ''tests'', ''*.py''] = mset [''*.py'', ''src*'', ''tests'']
   \<and> mset [''venv'', ''.*'', ''*_old.py''] = mset [''.*'', ''*_old.py'', ''venv'']
   \<and> should_process ''/home/user'' ''proj/src/a_old.py'' ''proj''
         [''*.py'', ''src*'', ''tests''] [''.*'', ''*_old.py'', ''venv''] = Inr False
   \<and> should_process ''/home/user'' ''proj/src/a_old.py'' ''proj''
         [''src*'', ''tests'', ''*.py''] [''venv'', ''.*'', ''*_old.py''] = Inr False"
proof -
  have a: "mset [''src*'', ''tests'', ''*.py''] = mset [''*.py'', ''src*'', ''tests'']"
    by (simp add: add_mset_commute)
  have b: "mset [''venv'', ''.*'', ''*_old.py''] = mset [''.*'', ''*_old.py'', ''venv'']"
    by (simp add: add_mset_commute)
  have v: "should_process ''/home/user'' ''proj/src/a_old.py'' ''proj''
         [''*.py'', ''src*'', ''tests''] [''.*'', ''*_old.py'', ''venv''] = Inr False"
    by code_simp
  from a b v show ?thesis
    using should_process_permutation [OF a b, of "''/home/user''" "''proj/src/a_old.py''" "''proj''"]
    by simp
qed

section \<open>Properties of the command line\<close>

lemma py_or_env:
  "py_or a (py_or b c) = (if truthy a then a else if truthy b then b else c)"
  by (simp add: py_or_def)

text \<open>
  Claim C7. In description mode the key is the \<^verbatim>\<open>-api\<close> flag when it is given (and not
  empty); otherwise the first of the environment variables \<^verbatim>\<open>OPENAI_API_KEY\<close>,
  \<^verbatim>\<open>API_KEY\<close>, \<^verbatim>\<open>api_key\<close> that is set (and not empty); and when none gives a key,
  \<^verbatim>\<open>main\<close> ends with \<^verbatim>\<open>sys.exit(1)\<close> having logged the one critical record and nothing
  else, whatever the file system holds: no reporter has run.
\<close>

theorem api_key_resolution:
  assumes "arg_description a"
  shows "snd (resolve_api_key (w_getenv w) a) =
           (if truthy (arg_api a) then Inr (arg_api a)
            else if truthy (w_getenv w ''OPENAI_API_KEY'') then Inr (w_getenv w ''OPENAI_API_KEY'')
            else if truthy (w_getenv w ''API_KEY'') then Inr (w_getenv w ''API_KEY'')
            else if truthy (w_getenv w ''api_key'') then Inr (w_getenv w ''api_key'')
            else Inl (SystemExit 1))
         \<and> (\<not> truthy (arg_api a) \<and> \<not> truthy (w_getenv w ''OPENAI_API_KEY'')
              \<and> \<not> truthy (w_getenv w ''API_KEY'') \<and> \<not> truthy (w_getenv w ''api_key'')
            \<longrightarrow> snd (main w a) = Inl (SystemExit 1) \<and> map fst (fst (main w a)) = [CRITICAL])"
  using assms by (simp add: resolve_api_key_def main_def py_or_env Let_def)

theorem api_key_resolution_witness:
  "arg_description (sample_args\<lparr>arg_description := True, arg_api := Some ''sk-flag''\<rparr>)
   \<and> snd (resolve_api_key
            (w_getenv (sample_world\<lparr>w_getenv := (\<lambda>v. if v = ''API_KEY'' then Some ''sk-env'' else None)\<rparr>))
            (sample_args\<lparr>arg_description := True, arg_api := Some ''sk-flag''\<rparr>))
       = Inr (Some ''sk-flag'')
   \<and> snd (resolve_api_key
            (w_getenv (sample_world\<lparr>w_getenv := (\<lambda>v. if v = ''API_KEY'' then Some ''sk-env'' else None)\<rparr>))
            (sample_args\<lparr>arg_description := True\<rparr>))
       = Inr (Some ''sk-env'')
   \<and> snd (main sample_world (sample_args\<lparr>arg_description := True\<rparr>)) = Inl (SystemExit 1)
   \<and> map fst (fst (main sample_world (sample_args\<lparr>arg_description := True\<rparr>))) = [CRITICAL]"
  using
    api_key_resolution [of "sample_args\<lparr>arg_description := True, arg_api := Some ''sk-flag''\<rparr>"
      "sample_world\<lparr>w_getenv := (\<lambda>v. if v = ''API_KEY'' then Some ''sk-env'' else None)\<rparr>"]
    api_key_resolution [of "sample_args\<lparr>arg_description := True\<rparr>"
      "sample_world\<lparr>w_getenv := (\<lambda>v. if v = ''API_KEY'' then Some ''sk-env'' else None)\<rparr>"]
    api_key_resolution [of "sample_args\<lparr>arg_description := True\<rparr>" sample_world]
  by (simp add: sample_args_def sample_world_def truthy_def)

text \<open>
  The lines of the ignore file are stripped; the stripped lines that are not empty and do
  not start with \<^verbatim>\<open>#\<close> join the ignore list, in the order of the file.
\<close>

lemma ignore_file_patterns_filter:
  "ignore_file_patterns file_lines =
     filter (\<lambda>l. l \<noteq> [] \<and> \<not> startswith l ''#'') (map strip file_lines)"
  by (induction file_lines) (simp_all add: Let_def)

lemma collect_ignore_patterns_readable:
  assumes "truthy (arg_ignore_file a)"
    and "readlines (the (arg_ignore_file a)) = Inr file_lines"
  shows "collect_ignore_patterns readlines a =
           ([], Inr (default_ignore_patterns @ given (arg_ignore_patterns a)
                     @ given (arg_ignore_dirs a) @ given (arg_ignore_files a)
                     @ filter (\<lambda>l. l \<noteq> [] \<and> \<not> startswith l ''#'') (map strip file_lines)))"
  using assms by (simp add: collect_ignore_patterns_def ignore_file_patterns_filter)

text \<open>
  Claim C8. An ignore file that cannot be read ends the run with \<^verbatim>\<open>sys.exit(1)\<close>, but
  the record it logs has severity \<^verbatim>\<open>ERROR\<close>, not \<^verbatim>\<open>CRITICAL\<close>: line 379 calls
  \<^verbatim>\<open>logging.error\<close>, where the other fatal paths of the script (lines 228, 235, 293, 301
  and 344) call \<^verbatim>\<open>logging.critical\<close>.
\<close>

theorem unreadable_ignore_file_logged_as_error:
  "main sample_world (sample_args\<lparr>arg_ignore_file := Some ''.myignore''\<rparr>)
   = ([(INFO, ''Root directory to scan: proj''),
       (ERROR, ''Failed to read ignore file .myignore: [Errno 2] No such file or directory'')],
      Inl (SystemExit 1))"
  by (simp add: main_def resolve_api_key_def collect_ignore_patterns_def sample_args_def
      sample_world_def truthy_def Let_def)

section \<open>Properties of the description service\<close>

text \<open>The failures that have a handler give the fallback description.\<close>

lemma get_file_description_fallback:
  "post api_key (user_content file_content partial_prompt)
     \<in> {HTTPError, ConnectionError, Timeout, RequestException}
   \<Longrightarrow> get_file_description post file_content api_key partial_prompt
       = Inr (fallback_description, [])"
  by (auto simp: get_file_description_def)

lemma read_reply_missing_key:
  "map_of kvs ''choices'' = None \<Longrightarrow> read_reply (JObj kvs) = Inl KeyError"
  by (simp add: read_reply_def ebind_def)

text \<open>
  Claim C5. A description request that fails must leave a File Record with the fallback
  description and never end the run. The script does this for the exceptions of
  \<^verbatim>\<open>requests\<close> and for a missing key, but not for every malformed answer: on the
  answer \<^verbatim>\<open>{"choices": []}\<close> the subscript \<^verbatim>\<open>[0]\<close> raises \<^verbatim>\<open>IndexError\<close>, and on
  \<^verbatim>\<open>{"choices": [{"message": {"content": null}}]}\<close> the call \<^verbatim>\<open>.strip()\<close> raises
  \<^verbatim>\<open>AttributeError\<close>; neither has a handler, so the run ends with the exception and
  writes no record at all.
\<close>

theorem empty_choices_is_fatal:
  "get_file_description (\<lambda>key content. Reply (JObj [(''choices'', JArr [])])) ''x=1'' ''sk-key'' None
     = Inl IndexError
   \<and> process_all_python_files
       (sample_world\<lparr>w_post := (\<lambda>key content. Reply (JObj [(''choices'', JArr [])]))\<rparr>)
       ''proj'' [] default_ignore_patterns (Some ''sk-key'') None
     = Inl IndexError
   \<and> get_file_description
       (\<lambda>key content.
          Reply (JObj [(''choices'', JArr [JObj [(''message'', JObj [(''content'', JNull)])]])]))
       ''x=1'' ''sk-key'' None
     = Inl AttributeError"
  by code_simp

section \<open>Properties of the walk\<close>

lemma prune_filter:
  "prune sp dirpath ds = Inr kept \<Longrightarrow> kept = filter (\<lambda>d. sp (join dirpath d) = Inr True) ds"
  by (induction ds arbitrary: kept) (auto split: sum.splits if_splits)

lemma dirs_of_simps [simp]:
  "dirs_of [] = []"
  "dirs_of (File n st rd # rest) = dirs_of rest"
  "dirs_of (Dir n st sub # rest) = Dir n st sub # dirs_of rest"
  "dirs_of (ClosedDir n st # rest) = ClosedDir n st # dirs_of rest"
  by (simp_all add: dirs_of_def)

lemma nondirs_of_simps [simp]:
  "nondirs_of [] = []"
  "nondirs_of (File n st rd # rest) = File n st rd # nondirs_of rest"
  "nondirs_of (Dir n st sub # rest) = nondirs_of rest"
  "nondirs_of (ClosedDir n st # rest) = nondirs_of rest"
  by (simp_all add: nondirs_of_def)

lemma nondirs_of_idem [simp]: "nondirs_of (nondirs_of entries) = nondirs_of entries"
  by (simp add: nondirs_of_def)

lemma nondirs_of_subset: "e \<in> set (nondirs_of entries) \<Longrightarrow> e \<in> set entries"
  by (simp add: nondirs_of_def)

lemma os_walk_all:
  "os_walk sp body dirpath entries = Inr out
   \<Longrightarrow> (\<forall>p ds es r. body p ds es = Inr r \<longrightarrow> (\<forall>x \<in> set r. P x))
   \<Longrightarrow> \<forall>x \<in> set out. P x"
  "walk_subdirs sp body dirpath dirnames entries = Inr out
   \<Longrightarrow> (\<forall>p ds es r. body p ds es = Inr r \<longrightarrow> (\<forall>x \<in> set r. P x))
   \<Longrightarrow> \<forall>x \<in> set out. P x"
proof (induction sp body dirpath entries and sp body dirpath dirnames entries
    arbitrary: out and out rule: os_walk_walk_subdirs.induct)
  case (1 sp body dirpath entries)
  from "1.prems"(1) obtain dirnames here below
    where p: "prune sp dirpath (map name_of (dirs_of entries)) = Inr dirnames"
      and h: "body dirpath dirnames entries = Inr here"
      and b: "walk_subdirs sp body dirpath dirnames entries = Inr below"
      and out: "out = here @ below"
    by (auto simp: os_walk.simps split: sum.splits)
  have "\<forall>x \<in> set here. P x"
    using "1.prems"(2) h by blast
  moreover have "\<forall>x \<in> set below. P x"
    using "1.IH" [OF p h b "1.prems"(2)] .
  ultimately show ?case
    using out by auto
next
  case (2 sp body dirpath dirnames)
  then show ?case by simp
next
  case (3 sp body dirpath dirnames d st sub rest)
  show ?case
  proof (cases "d \<in> set dirnames")
    case True
    with "3.prems"(1) obtain first others
      where f: "os_walk sp body (join dirpath d) sub = Inr first"
        and r: "walk_subdirs sp body dirpath dirnames rest = Inr others"
        and out: "out = first @ others"
      by (auto split: sum.splits)
    have "\<forall>x \<in> set first. P x"
      using "3.IH"(1) [OF True f "3.prems"(2)] .
    moreover have "\<forall>x \<in> set others. P x"
      using "3.IH"(2) [OF True f r "3.prems"(2)] .
    ultimately show ?thesis
      using out by auto
  next
    case False
    with "3.prems" "3.IH"(3) show ?thesis by simp
  qed
next
  case (4 sp body dirpath dirnames n st rd rest)
  then show ?case by simp
next
  case (5 sp body dirpath dirnames n st rest)
  then show ?case by simp
qed

section \<open>Properties of the Content Reporter\<close>

lemma process_file_keys:
  "process_file sp post api_key partial_prompt dirpath filename rd = Inr (Some x)
   \<Longrightarrow> map fst (snd x) = record_keys api_key"
  by (auto simp: process_file_def record_keys_def Let_def
      split: sum.splits if_splits read_result.splits prod.splits)

lemma process_files_keys:
  "process_files sp post api_key partial_prompt dirpath entries = Inr out \<Longrightarrow> x \<in> set out
   \<Longrightarrow> map fst (snd x) = record_keys api_key"
proof (induction sp post api_key partial_prompt dirpath entries arbitrary: out
    rule: process_files.induct)
  case (2 sp post api_key partial_prompt dirpath filename st rd rest)
  then show ?case
    by (auto split: sum.splits option.splits dest: process_file_keys)
qed simp_all

lemma content_body_keys:
  "content_body sp post api_key partial_prompt dirpath dirnames entries = Inr out
   \<Longrightarrow> x \<in> set out \<Longrightarrow> map fst (snd x) = record_keys api_key"
  by (auto simp: content_body_def split: sum.splits if_splits dest: process_files_keys)

text \<open>
  Claim C9. Every File Record of a completed content scan has the keys \<^verbatim>\<open>filename\<close>,
  \<^verbatim>\<open>filepath\<close>, \<^verbatim>\<open>description\<close>, \<^verbatim>\<open>content\<close> when an API key is configured, and
  exactly \<^verbatim>\<open>filename\<close>, \<^verbatim>\<open>filepath\<close>, \<^verbatim>\<open>content\<close> when none is: it has a description
  field if and only if a key is configured.
\<close>

theorem description_field_iff_api_key:
  assumes "process_all_python_files w root_dir include_patterns ignore_patterns api_key
             partial_prompt = Inr (transcript, overview_data)"
  shows "\<forall>file_entry \<in> set overview_data.
           map fst file_entry =
             (if truthy api_key then [''filename'', ''filepath'', ''description'', ''content'']
              else [''filename'', ''filepath'', ''content''])
           \<and> ((''description'' \<in> set (map fst file_entry)) = truthy api_key)"
proof
  fix file_entry
  assume m: "file_entry \<in> set overview_data"
  define sp where "sp = (\<lambda>path. should_process (w_cwd w) path root_dir include_patterns ignore_patterns)"
  from assms obtain found
    where f: "walk_root w sp (content_body sp (w_post w) api_key partial_prompt) root_dir = Inr found"
      and o: "overview_data = map snd found"
    by (auto simp: process_all_python_files_def Let_def sp_def split: if_splits sum.splits)
  from m o obtain x where x: "x \<in> set found" "file_entry = snd x" by auto
  have "map fst (snd x) = record_keys api_key"
  proof (cases "if root_dir = [] then None else w_scandir w root_dir")
    case None
    with f x(1) show ?thesis by (simp add: walk_root_def)
  next
    case (Some entries)
    with f have "os_walk sp (content_body sp (w_post w) api_key partial_prompt) root_dir entries
        = Inr found"
      by (simp add: walk_root_def)
    then have "\<forall>x \<in> set found. map fst (snd x) = record_keys api_key"
      by (rule os_walk_all(1)) (blast dest: content_body_keys)
    with x(1) show ?thesis by blast
  qed
  with x(2) show "map fst file_entry =
             (if truthy api_key then [''filename'', ''filepath'', ''description'', ''content'']
              else [''filename'', ''filepath'', ''content''])
           \<and> ((''description'' \<in> set (map fst file_entry)) = truthy api_key)"
    by (simp add: record_keys_def)
qed

theorem description_field_iff_api_key_witness:
  "map_sum id snd
     (process_all_python_files sample_world ''proj'' [] default_ignore_patterns (Some ''sk-key'') None)
   = Inr [[(''filename'', ''a.py''), (''filepath'', ''proj/a.py''),
           (''description'', fallback_description), (''content'', ''x=1'')],
          [(''filename'', ''c.py''), (''filepath'', ''proj/src/c.py''),
           (''description'', fallback_description), (''content'', ''z=3'')]]
   \<and> truthy (Some ''sk-key'')
   \<and> map_sum id snd
     (process_all_python_files sample_world ''proj'' [] default_ignore_patterns None None)
   = Inr [[(''filename'', ''a.py''), (''filepath'', ''proj/a.py''), (''content'', ''x=1'')],
          [(''filename'', ''c.py''), (''filepath'', ''proj/src/c.py''), (''content'', ''z=3'')]]
   \<and> \<not> truthy None"
proof -
  let ?D1 = "[[(''filename'', ''a.py''), (''filepath'', ''proj/a.py''),
           (''description'', fallback_description), (''content'', ''x=1'')],
          [(''filename'', ''c.py''), (''filepath'', ''proj/src/c.py''),
           (''description'', fallback_description), (''content'', ''z=3'')]]"
  let ?D2 = "[[(''filename'', ''a.py''), (''filepath'', ''proj/a.py''), (''content'', ''x=1'')],
          [(''filename'', ''c.py''), (''filepath'', ''proj/src/c.py''), (''content'', ''z=3'')]]"
  have a: "map_sum id snd
     (process_all_python_files sample_world ''proj'' [] default_ignore_patterns (Some ''sk-key'') None)
     = Inr ?D1"
    by code_simp
  have b: "map_sum id snd
     (process_all_python_files sample_world ''proj'' [] default_ignore_patterns None None) = Inr ?D2"
    by code_simp
  from a obtain t1 where e1: "process_all_python_files sample_world ''proj'' [] default_ignore_patterns
      (Some ''sk-key'') None = Inr (t1, ?D1)"
    by (cases "process_all_python_files sample_world ''proj'' [] default_ignore_patterns
      (Some ''sk-key'') None") auto
  from b obtain t2 where e2: "process_all_python_files sample_world ''proj'' [] default_ignore_patterns
      None None = Inr (t2, ?D2)"
    by (cases "process_all_python_files sample_world ''proj'' [] default_ignore_patterns None None") auto
  from description_field_iff_api_key [OF e1] description_field_iff_api_key [OF e2] a b
  show ?thesis
    by (simp add: truthy_def)
qed

lemma matched_files_split:
  "length (matched_files sp dirpath entries) =
     length (matched_files sp dirpath (nondirs_of entries))
     + length (matched_files sp dirpath (dirs_of entries))"
  by (induction sp dirpath entries rule: matched_files.induct) simp_all

lemma process_file_count:
  "process_file sp post api_key partial_prompt dirpath n rd = Inr r \<Longrightarrow>
   (r \<noteq> None) = (sp (join dirpath n) = Inr True \<and> endswith n ''.py'' \<and> readable rd)"
  by (auto simp: process_file_def Let_def
      split: sum.splits if_splits read_result.splits prod.splits)

lemma process_files_count:
  "process_files sp post api_key partial_prompt dirpath entries = Inr out
   \<Longrightarrow> length out = length (matched_files sp dirpath (nondirs_of entries))"
proof (induction sp post api_key partial_prompt dirpath entries arbitrary: out
    rule: process_files.induct)
  case (2 sp post api_key partial_prompt dirpath filename st rd rest)
  from "2.prems" obtain r rs
    where r: "process_file sp post api_key partial_prompt dirpath filename rd = Inr r"
      and rs: "process_files sp post api_key partial_prompt dirpath rest = Inr rs"
      and out: "out = (case r of None \<Rightarrow> rs | Some x \<Rightarrow> x # rs)"
    by (auto split: sum.splits)
  from "2.IH" [OF r rs] have "length rs = length (matched_files sp dirpath (nondirs_of rest))" .
  with process_file_count [OF r] out show ?case
    by (cases r) auto
qed simp_all

lemma content_body_count:
  "content_body sp post api_key partial_prompt dirpath dirnames entries = Inr out
   \<Longrightarrow> sp dirpath = Inr True
   \<Longrightarrow> length out = length (matched_files sp dirpath (nondirs_of entries))"
  by (auto simp: content_body_def dest: process_files_count)

lemma os_walk_count:
  "os_walk sp body dirpath entries = Inr out
   \<Longrightarrow> (\<forall>p ds es r. sp p = Inr True \<longrightarrow> body p ds es = Inr r
          \<longrightarrow> length r = length (matched_files sp p (nondirs_of es)))
   \<Longrightarrow> sp dirpath = Inr True
   \<Longrightarrow> length out = length (matched_files sp dirpath entries)"
  "walk_subdirs sp body dirpath dirnames entries = Inr out
   \<Longrightarrow> (\<forall>p ds es r. sp p = Inr True \<longrightarrow> body p ds es = Inr r
          \<longrightarrow> length r = length (matched_files sp p (nondirs_of es)))
   \<Longrightarrow> (\<forall>e \<in> set entries. isdir e \<longrightarrow>
          (name_of e \<in> set dirnames) = (sp (join dirpath (name_of e)) = Inr True))
   \<Longrightarrow> length out = length (matched_files sp dirpath (dirs_of entries))"
proof (induction sp body dirpath entries and sp body dirpath dirnames entries
    arbitrary: out and out rule: os_walk_walk_subdirs.induct)
  case (1 sp body dirpath entries)
  from "1.prems"(1) obtain dirnames here below
    where p: "prune sp dirpath (map name_of (dirs_of entries)) = Inr dirnames"
      and h: "body dirpath dirnames entries = Inr here"
      and b: "walk_subdirs sp body dirpath dirnames entries = Inr below"
      and out: "out = here @ below"
    by (auto simp: os_walk.simps split: sum.splits)
  have k: "\<forall>e \<in> set entries. isdir e \<longrightarrow>
      (name_of e \<in> set dirnames) = (sp (join dirpath (name_of e)) = Inr True)"
    using prune_filter [OF p] by (auto simp: dirs_of_def)
  have "length here = length (matched_files sp dirpath (nondirs_of entries))"
    using "1.prems"(2,3) h by blast
  moreover have "length below = length (matched_files sp dirpath (dirs_of entries))"
    using "1.IH" [OF p h b "1.prems"(2) k] .
  ultimately show ?case
    using out by (simp add: matched_files_split [of sp dirpath entries])
next
  case (2 sp body dirpath dirnames)
  then show ?case by simp
next
  case (3 sp body dirpath dirnames d st sub rest)
  have k: "\<forall>e \<in> set rest. isdir e \<longrightarrow>
      (name_of e \<in> set dirnames) = (sp (join dirpath (name_of e)) = Inr True)"
    using "3.prems"(3) by simp
  have dk: "(d \<in> set dirnames) = (sp (join dirpath d) = Inr True)"
    using "3.prems"(3) by simp
  show ?case
  proof (cases "d \<in> set dirnames")
    case True
    with "3.prems"(1) obtain first others
      where f: "os_walk sp body (join dirpath d) sub = Inr first"
        and r: "walk_subdirs sp body dirpath dirnames rest = Inr others"
        and out: "out = first @ others"
      by (auto split: sum.splits)
    have "length first = length (matched_files sp (join dirpath d) sub)"
      using "3.IH"(1) [OF True f "3.prems"(2)] dk True by simp
    moreover have "length others = length (matched_files sp dirpath (dirs_of rest))"
      using "3.IH"(2) [OF True f r "3.prems"(2) k] .
    ultimately show ?thesis
      using out dk True by simp
  next
    case False
    with "3.prems"(1) have r: "walk_subdirs sp body dirpath dirnames rest = Inr out" by simp
    have "length out = length (matched_files sp dirpath (dirs_of rest))"
      using "3.IH"(3) [OF False r "3.prems"(2) k] .
    with dk False show ?thesis by simp
  qed
next
  case (4 sp body dirpath dirnames n st rd rest)
  then show ?case by simp
next
  case (5 sp body dirpath dirnames n st rest)
  then show ?case by simp
qed

text \<open>
  A content scan that completes has one record for each readable file under the root,
  within directories that were not pruned, that passes the Pattern Matcher and ends in
  \<^verbatim>\<open>.py\<close>.
\<close>

theorem record_count:
  assumes "process_all_python_files w root_dir include_patterns ignore_patterns api_key
             partial_prompt = Inr (transcript, overview_data)"
  shows "length overview_data =
           (case (if root_dir = [] then None else w_scandir w root_dir) of
              None \<Rightarrow> 0
            | Some entries \<Rightarrow>
                length (matched_files
                  (\<lambda>path. should_process (w_cwd w) path root_dir include_patterns ignore_patterns)
                  root_dir entries))"
proof -
  define sp where "sp = (\<lambda>path. should_process (w_cwd w) path root_dir include_patterns ignore_patterns)"
  from assms obtain found
    where f: "walk_root w sp (content_body sp (w_post w) api_key partial_prompt) root_dir = Inr found"
      and d: "overview_data = map snd found"
    by (auto simp: process_all_python_files_def Let_def sp_def split: if_splits sum.splits)
  show ?thesis
  proof (cases "if root_dir = [] then None else w_scandir w root_dir")
    case None
    with f d show ?thesis by (simp add: walk_root_def)
  next
    case (Some entries)
    then have ne: "root_dir \<noteq> []" by (auto split: if_splits)
    from Some f have "os_walk sp (content_body sp (w_post w) api_key partial_prompt) root_dir entries
        = Inr found"
      by (simp add: walk_root_def)
    then have "length found = length (matched_files sp root_dir entries)"
    proof (rule os_walk_count(1))
      show "\<forall>p ds es r. sp p = Inr True \<longrightarrow>
          content_body sp (w_post w) api_key partial_prompt p ds es = Inr r \<longrightarrow>
          length r = length (matched_files sp p (nondirs_of es))"
        by (blast dest: content_body_count)
      show "sp root_dir = Inr True"
        using ne by (simp add: sp_def should_process_self)
    qed
    with Some d show ?thesis by (simp add: sp_def)
  qed
qed

theorem record_count_witness:
  "map_sum id (length \<circ> snd)
     (process_all_python_files sample_world ''proj'' [] default_ignore_patterns None None) = Inr 2
   \<and> w_scandir sample_world ''proj'' = Some sample_tree
   \<and> matched_files
        (\<lambda>path. should_process (w_cwd sample_world) path ''proj'' [] default_ignore_patterns)
        ''proj'' sample_tree
      = [''proj/a.py'', ''proj/src/c.py'']"
proof -
  have a: "map_sum id (length \<circ> snd)
     (process_all_python_files sample_world ''proj'' [] default_ignore_patterns None None) = Inr 2"
    by code_simp
  have s: "w_scandir sample_world ''proj'' = Some sample_tree"
    by (simp add: sample_world_def)
  have m: "matched_files
        (\<lambda>path. should_process (w_cwd sample_world) path ''proj'' [] default_ignore_patterns)
        ''proj'' sample_tree
      = [''proj/a.py'', ''proj/src/c.py'']"
    by code_simp
  from a obtain t d where e: "process_all_python_files sample_world ''proj'' [] default_ignore_patterns
      None None = Inr (t, d)"
    by (cases "process_all_python_files sample_world ''proj'' [] default_ignore_patterns None None") auto
  from record_count [OF e] a s m show ?thesis
    by simp
qed

text \<open>
  Claim C6. For every root the number of records in the JSON output must equal the number
  of readable files that pass the Matcher and end in \<^verbatim>\<open>.py\<close>. A file that cannot be read
  is meant to be skipped: the handler of line 191 logs the failure and continues. It
  catches \<^verbatim>\<open>IOError\<close> and \<^verbatim>\<open>OSError\<close> only, so a file that is not valid UTF-8 ends the
  run with \<^verbatim>\<open>UnicodeDecodeError\<close> and no JSON output is written, although two readable
  files match.
\<close>

theorem undecodable_file_is_fatal:
  "w_scandir decode_world ''proj''
     = Some [File ''good.py'' sample_stat (Text ''x=1''),
             File ''bad.py'' sample_stat ReadDecodeError,
             File ''late.py'' sample_stat (Text ''y=2'')]
   \<and> process_all_python_files decode_world ''proj'' [] default_ignore_patterns None None
     = Inl UnicodeDecodeError
   \<and> matched_files
        (\<lambda>path. should_process (w_cwd decode_world) path ''proj'' [] default_ignore_patterns)
        ''proj''
        [File ''good.py'' sample_stat (Text ''x=1''),
         File ''bad.py'' sample_stat ReadDecodeError,
         File ''late.py'' sample_stat (Text ''y=2'')]
     = [''proj/good.py'', ''proj/late.py'']"
  by code_simp

text \<open>The transcript of a completed scan is its records' blocks, in order.\<close>

lemma process_file_block:
  "process_file sp post api_key partial_prompt dirpath filename rd = Inr (Some x)
   \<Longrightarrow> fst x = render_record (snd x)"
  by (auto simp: process_file_def Let_def render_record_def field_def
      split: sum.splits if_splits read_result.splits prod.splits)

lemma process_files_blocks:
  "process_files sp post api_key partial_prompt dirpath entries = Inr out \<Longrightarrow> x \<in> set out
   \<Longrightarrow> fst x = render_record (snd x)"
proof (induction sp post api_key partial_prompt dirpath entries arbitrary: out
    rule: process_files.induct)
  case (2 sp post api_key partial_prompt dirpath filename st rd rest)
  then show ?case
    by (auto split: sum.splits option.splits dest: process_file_block)
qed simp_all

lemma content_body_blocks:
  "content_body sp post api_key partial_prompt dirpath dirnames entries = Inr out
   \<Longrightarrow> x \<in> set out \<Longrightarrow> fst x = render_record (snd x)"
  by (auto simp: content_body_def split: sum.splits if_splits dest: process_files_blocks)

lemma transcript_renders_records:
  assumes "process_all_python_files w root_dir include_patterns ignore_patterns api_key
             partial_prompt = Inr (transcript, overview_data)"
  shows "transcript = concat (map render_record overview_data)"
proof -
  define sp where "sp = (\<lambda>path. should_process (w_cwd w) path root_dir include_patterns ignore_patterns)"
  from assms obtain found
    where f: "walk_root w sp (content_body sp (w_post w) api_key partial_prompt) root_dir = Inr found"
      and t: "transcript = concat (map fst found)" and d: "overview_data = map snd found"
    by (auto simp: process_all_python_files_def Let_def sp_def split: if_splits sum.splits)
  have "\<forall>x \<in> set found. fst x = render_record (snd x)"
  proof (cases "if root_dir = [] then None else w_scandir w root_dir")
    case None
    with f show ?thesis by (simp add: walk_root_def)
  next
    case (Some entries)
    with f have "os_walk sp (content_body sp (w_post w) api_key partial_prompt) root_dir entries
        = Inr found"
      by (simp add: walk_root_def)
    then show ?thesis
      by (rule os_walk_all(1)) (blast dest: content_body_blocks)
  qed
  then have "map fst found = map (render_record \<circ> snd) found"
    by simp
  with t d show ?thesis by simp
qed

section \<open>Properties of the Tree Reporter\<close>

lemma tree_entry_listed:
  "tree_entry sp dirpath e = Inr r \<Longrightarrow>
   r = (if sp (join dirpath (name_of e)) = Inr True \<and> has_stat (stat_of e)
        then Some (entry_line e, entry_record e) else None)"
  by (auto simp: tree_entry_def Let_def
      split: sum.splits if_splits stat_result.splits option.splits)

lemma tree_entries_listed:
  "tree_entries sp dirpath es = Inr listed \<Longrightarrow>
   listed = map (\<lambda>e. (entry_line e, entry_record e))
     (filter (\<lambda>e. sp (join dirpath (name_of e)) = Inr True \<and> has_stat (stat_of e)) es)"
proof (induction es arbitrary: listed)
  case Nil
  then show ?case by simp
next
  case (Cons e es)
  from Cons.prems obtain r rs
    where r: "tree_entry sp dirpath e = Inr r"
      and rs: "tree_entries sp dirpath es = Inr rs"
      and l: "listed = (case r of None \<Rightarrow> rs | Some x \<Rightarrow> x # rs)"
    by (auto split: sum.splits)
  from Cons.IH [OF rs] tree_entry_listed [OF r] l show ?case
    by (simp del: entry_line.simps entry_record.simps)
qed

lemma tree_body_section:
  assumes "tree_body sp dirpath dirnames entries = Inr r"
    and "sp dirpath = Inr True"
    and "dirnames = filter (\<lambda>d. sp (join dirpath d) = Inr True) (map name_of (dirs_of entries))"
  shows "r = [section_of sp dirpath entries]"
proof -
  let ?ok = "\<lambda>e. sp (join dirpath (name_of e)) = Inr True \<and> has_stat (stat_of e)"
  from assms(1,2) obtain listed
    where l: "tree_entries sp dirpath
                (filter (\<lambda>e. name_of e \<in> set dirnames) (dirs_of entries) @ nondirs_of entries)
              = Inr listed"
      and r: "r = [(header dirpath @ concat (map fst listed),
                    \<lparr>directory = dirpath, contents = map snd listed\<rparr>)]"
    by (auto simp: tree_body_def split: sum.splits)
  have "filter ?ok (filter (\<lambda>e. name_of e \<in> set dirnames) (dirs_of entries))
        = filter ?ok (dirs_of entries)"
    unfolding filter_filter assms(3) by (rule filter_cong) auto
  then have "listed = map (\<lambda>e. (entry_line e, entry_record e)) (passing_children sp dirpath entries)"
    using tree_entries_listed [OF l] by (simp add: passing_children_def)
  with r show ?thesis
    by (simp add: section_of_def comp_def del: entry_line.simps entry_record.simps)
qed

lemma os_walk_sections:
  "os_walk sp body dirpath entries = Inr out
   \<Longrightarrow> (\<forall>p es r. sp p = Inr True
          \<longrightarrow> body p (filter (\<lambda>d. sp (join p d) = Inr True) (map name_of (dirs_of es))) es = Inr r
          \<longrightarrow> r = [f p es])
   \<Longrightarrow> sp dirpath = Inr True
   \<Longrightarrow> out = map (\<lambda>(p, es). f p es) (visited sp dirpath entries)"
  "walk_subdirs sp body dirpath dirnames entries = Inr out
   \<Longrightarrow> (\<forall>p es r. sp p = Inr True
          \<longrightarrow> body p (filter (\<lambda>d. sp (join p d) = Inr True) (map name_of (dirs_of es))) es = Inr r
          \<longrightarrow> r = [f p es])
   \<Longrightarrow> (\<forall>e \<in> set entries. isdir e \<longrightarrow>
          (name_of e \<in> set dirnames) = (sp (join dirpath (name_of e)) = Inr True))
   \<Longrightarrow> out = map (\<lambda>(p, es). f p es) (visited_below sp dirpath entries)"
proof (induction sp body dirpath entries and sp body dirpath dirnames entries
    arbitrary: out and out rule: os_walk_walk_subdirs.induct)
  case (1 sp body dirpath entries)
  from "1.prems"(1) obtain dirnames here below
    where p: "prune sp dirpath (map name_of (dirs_of entries)) = Inr dirnames"
      and h: "body dirpath dirnames entries = Inr here"
      and b: "walk_subdirs sp body dirpath dirnames entries = Inr below"
      and out: "out = here @ below"
    by (auto simp: os_walk.simps split: sum.splits)
  note d = prune_filter [OF p]
  have k: "\<forall>e \<in> set entries. isdir e \<longrightarrow>
      (name_of e \<in> set dirnames) = (sp (join dirpath (name_of e)) = Inr True)"
    using d by (auto simp: dirs_of_def)
  have "here = [f dirpath entries]"
    using "1.prems"(2,3) h d by blast
  moreover have "below = map (\<lambda>(p, es). f p es) (visited_below sp dirpath entries)"
    using "1.IH" [OF p h b "1.prems"(2) k] .
  ultimately show ?case
    using out by simp
next
  case (2 sp body dirpath dirnames)
  then show ?case by simp
next
  case (3 sp body dirpath dirnames d st sub rest)
  have k: "\<forall>e \<in> set rest. isdir e \<longrightarrow>
      (name_of e \<in> set dirnames) = (sp (join dirpath (name_of e)) = Inr True)"
    using "3.prems"(3) by simp
  have dk: "(d \<in> set dirnames) = (sp (join dirpath d) = Inr True)"
    using "3.prems"(3) by simp
  show ?case
  proof (cases "d \<in> set dirnames")
    case True
    with "3.prems"(1) obtain first others
      where f: "os_walk sp body (join dirpath d) sub = Inr first"
        and r: "walk_subdirs sp body dirpath dirnames rest = Inr others"
        and out: "out = first @ others"
      by (auto split: sum.splits)
    have "first = map (\<lambda>(p, es). f p es) (visited sp (join dirpath d) sub)"
      using "3.IH"(1) [OF True f "3.prems"(2)] dk True by simp
    moreover have "others = map (\<lambda>(p, es). f p es) (visited_below sp dirpath rest)"
      using "3.IH"(2) [OF True f r "3.prems"(2) k] .
    ultimately show ?thesis
      using out dk True by simp
  next
    case False
    with "3.prems"(1) have r: "walk_subdirs sp body dirpath dirnames rest = Inr out" by simp
    have "out = map (\<lambda>(p, es). f p es) (visited_below sp dirpath rest)"
      using "3.IH"(3) [OF False r "3.prems"(2) k] .
    with dk False show ?thesis by simp
  qed
next
  case (4 sp body dirpath dirnames n st rd rest)
  then show ?case by simp
next
  case (5 sp body dirpath dirnames n st rest)
  then show ?case by simp
qed

text \<open>
  Claim C4, as the code has it. The claim says that the lines of a directory's children
  come in the order of the listing, directories and files interleaved. The loop runs over
  \<^verbatim>\<open>dirnames + filenames\<close>: in the listing below the file \<^verbatim>\<open>a.txt\<close> comes before the
  directory \<^verbatim>\<open>b\<close>, both pass, and the section lists \<^verbatim>\<open>b\<close> first. The entry
  \<^verbatim>\<open>gone.txt\<close> passes too, but its status lookup fails and it has no line.
\<close>

theorem tree_order_counterexample:
  "w_scandir order_world ''proj''
     = Some [File ''a.txt'' sample_stat (Text ''hello''), Dir ''b'' sample_stat [],
              File ''gone.txt'' StatFailed ReadOSError]
   \<and> should_process (w_cwd order_world) ''proj/a.txt'' ''proj'' [] [] = Inr True
   \<and> should_process (w_cwd order_world) ''proj/b'' ''proj'' [] [] = Inr True
   \<and> should_process (w_cwd order_world) ''proj/gone.txt'' ''proj'' [] [] = Inr True
   \<and> generate_tree_view order_world ''proj'' [] []
     = Inr (header ''proj'' @ ''-rw-r--r-- alice b'' @ newline
              @ ''-rw-r--r-- alice a.txt'' @ newline @ header ''proj/b'',
            [\<lparr>directory = ''proj'',
              contents =
                [[(''name'', ''b''), (''permissions'', ''-rw-r--r--''), (''owner'', ''alice''),
                  (''type'', ''directory'')],
                 [(''name'', ''a.txt''), (''permissions'', ''-rw-r--r--''), (''owner'', ''alice''),
                  (''type'', ''file'')]]\<rparr>,
             \<lparr>directory = ''proj/b'', contents = []\<rparr>])"
  by code_simp

text \<open>
  Claim C4, amended. The output of a completed tree scan is, for every visited directory
  in the order of the walk, one section: the header with the directory's path and its
  underline, then one line per child that passes the Matcher and whose status lookup
  succeeds, the passing directories first and the passing files after them, each group in
  the order of the listing; the JSON data holds the same entries in the same order.
\<close>

theorem tree_sections:
  assumes "generate_tree_view w root_dir include_patterns ignore_patterns = Inr (text, tree_data)"
  shows "(text, tree_data) =
           (case (if root_dir = [] then None else w_scandir w root_dir) of
              None \<Rightarrow> ([], [])
            | Some entries \<Rightarrow>
                (let sp = (\<lambda>path. should_process (w_cwd w) path root_dir include_patterns
                                   ignore_patterns);
                     sections = map (\<lambda>(dirpath, listing). section_of sp dirpath listing)
                                  (visited sp root_dir entries)
                 in (concat (map fst sections), map snd sections)))"
proof -
  define sp where "sp = (\<lambda>path. should_process (w_cwd w) path root_dir include_patterns ignore_patterns)"
  from assms obtain found
    where f: "walk_root w sp (tree_body sp) root_dir = Inr found"
      and t: "text = concat (map fst found)" and d: "tree_data = map snd found"
    by (auto simp: generate_tree_view_def Let_def sp_def split: if_splits sum.splits)
  show ?thesis
  proof (cases "if root_dir = [] then None else w_scandir w root_dir")
    case None
    with f t d show ?thesis by (simp add: walk_root_def)
  next
    case (Some entries)
    then have ne: "root_dir \<noteq> []" by (auto split: if_splits)
    from Some f have "os_walk sp (tree_body sp) root_dir entries = Inr found"
      by (simp add: walk_root_def)
    then have "found = map (\<lambda>(p, es). section_of sp p es) (visited sp root_dir entries)"
    proof (rule os_walk_sections(1))
      show "\<forall>p es r. sp p = Inr True \<longrightarrow>
          tree_body sp p (filter (\<lambda>d. sp (join p d) = Inr True) (map name_of (dirs_of es))) es
            = Inr r \<longrightarrow> r = [section_of sp p es]"
        by (blast intro: tree_body_section)
      show "sp root_dir = Inr True"
        using ne by (simp add: sp_def should_process_self)
    qed
    with Some t d show ?thesis by (simp add: sp_def Let_def)
  qed
qed

theorem tree_sections_witness:
  "generate_tree_view order_world ''proj'' [] []
     = Inr (header ''proj'' @ ''-rw-r--r-- alice b'' @ newline
              @ ''-rw-r--r-- alice a.txt'' @ newline @ header ''proj/b'',
            [\<lparr>directory = ''proj'',
              contents =
                [[(''name'', ''b''), (''permissions'', ''-rw-r--r--''), (''owner'', ''alice''),
                  (''type'', ''directory'')],
                 [(''name'', ''a.txt''), (''permissions'', ''-rw-r--r--''), (''owner'', ''alice''),
                  (''type'', ''file'')]]\<rparr>,
             \<lparr>directory = ''proj/b'', contents = []\<rparr>])
   \<and> map (\<lambda>(dirpath, listing). (dirpath, map name_of listing,
             map name_of (passing_children
               (\<lambda>path. should_process (w_cwd order_world) path ''proj'' [] []) dirpath listing)))
       (visited (\<lambda>path. should_process (w_cwd order_world) path ''proj'' [] []) ''proj''
          [File ''a.txt'' sample_stat (Text ''hello''), Dir ''b'' sample_stat [],
              File ''gone.txt'' StatFailed ReadOSError])
     = [(''proj'', [''a.txt'', ''b'', ''gone.txt''], [''b'', ''a.txt'']), (''proj/b'', [], [])]"
proof -
  have e: "generate_tree_view order_world ''proj'' [] []
     = Inr (header ''proj'' @ ''-rw-r--r-- alice b'' @ newline
              @ ''-rw-r--r-- alice a.txt'' @ newline @ header ''proj/b'',
            [\<lparr>directory = ''proj'',
              contents =
                [[(''name'', ''b''), (''permissions'', ''-rw-r--r--''), (''owner'', ''alice''),
                  (''type'', ''directory'')],
                 [(''name'', ''a.txt''), (''permissions'', ''-rw-r--r--''), (''owner'', ''alice''),
                  (''type'', ''file'')]]\<rparr>,
             \<lparr>directory = ''proj/b'', contents = []\<rparr>])"
    by code_simp
  have v: "map (\<lambda>(dirpath, listing). (dirpath, map name_of listing,
             map name_of (passing_children
               (\<lambda>path. should_process (w_cwd order_world) path ''proj'' [] []) dirpath listing)))
       (visited (\<lambda>path. should_process (w_cwd order_world) path ''proj'' [] []) ''proj''
          [File ''a.txt'' sample_stat (Text ''hello''), Dir ''b'' sample_stat [],
              File ''gone.txt'' StatFailed ReadOSError])
     = [(''proj'', [''a.txt'', ''b'', ''gone.txt''], [''b'', ''a.txt'']), (''proj/b'', [], [])]"
    by code_simp
  from tree_sections [OF e] e v show ?thesis
    by simp
qed

section \<open>When a scan completes\<close>

text \<open>
  \<^verbatim>\<open>should_process\<close> raises on the empty path only, and the walk never builds one from
  a root that is not empty. So a scan ends with its output when the two output files can
  be written and nothing in the tree raises an exception that has no handler: for the
  Content Reporter (here without descriptions) a file that does not decode, for the Tree
  Reporter a user id without a name or an \<^verbatim>\<open>OSError\<close> of \<^verbatim>\<open>os.stat\<close> that the inner
  handler does not name.
\<close>

lemma join_nonempty: "dirpath \<noteq> [] \<Longrightarrow> join dirpath n \<noteq> []"
  by (auto simp: join_def startswith_def)

lemma should_process_total:
  assumes "path \<noteq> []"
  shows "\<exists>b. should_process cwd path root_dir include_patterns ignore_patterns = Inr b"
proof -
  have "\<exists>r. relpath cwd path root_dir = Inr r"
    using assms by (simp add: relpath_def Let_def)
  then obtain r where "relpath cwd path root_dir = Inr r"
    by blast
  then show ?thesis
    by (auto simp: should_process_def Let_def)
qed

lemma prune_total:
  "\<forall>p. p \<noteq> [] \<longrightarrow> (\<exists>b. sp p = Inr b) \<Longrightarrow> dirpath \<noteq> []
   \<Longrightarrow> \<exists>kept. prune sp dirpath ds = Inr kept"
proof (induction ds)
  case Nil
  then show ?case by simp
next
  case (Cons d ds)
  from Cons.prems join_nonempty obtain b where "sp (join dirpath d) = Inr b" by blast
  moreover from Cons obtain kept where "prune sp dirpath ds = Inr kept" by blast
  ultimately show ?case by simp
qed

lemma os_walk_total:
  "\<forall>p. p \<noteq> [] \<longrightarrow> (\<exists>b. sp p = Inr b)
   \<Longrightarrow> \<forall>p ds es. p \<noteq> [] \<longrightarrow> (\<forall>e \<in> set es. ok e) \<longrightarrow> (\<exists>r. body p ds es = Inr r)
   \<Longrightarrow> dirpath \<noteq> [] \<Longrightarrow> all_nodes ok entries
   \<Longrightarrow> \<exists>out. os_walk sp body dirpath entries = Inr out"
  "\<forall>p. p \<noteq> [] \<longrightarrow> (\<exists>b. sp p = Inr b)
   \<Longrightarrow> \<forall>p ds es. p \<noteq> [] \<longrightarrow> (\<forall>e \<in> set es. ok e) \<longrightarrow> (\<exists>r. body p ds es = Inr r)
   \<Longrightarrow> dirpath \<noteq> [] \<Longrightarrow> all_nodes ok entries
   \<Longrightarrow> \<exists>out. walk_subdirs sp body dirpath dirnames entries = Inr out"
proof (induction sp body dirpath entries and sp body dirpath dirnames entries
    rule: os_walk_walk_subdirs.induct)
  case (1 sp body dirpath entries)
  from prune_total [OF "1.prems"(1,3)] obtain dirnames
    where p: "prune sp dirpath (map name_of (dirs_of entries)) = Inr dirnames" by blast
  have "\<forall>e \<in> set entries. ok e"
    using "1.prems"(4) by (induction ok entries rule: all_nodes.induct) auto
  with "1.prems"(2,3) obtain here where h: "body dirpath dirnames entries = Inr here" by blast
  from "1.IH" [OF p h "1.prems"] obtain below
    where "walk_subdirs sp body dirpath dirnames entries = Inr below" by blast
  with p h show ?case by (simp add: os_walk.simps)
next
  case (2 sp body dirpath dirnames)
  then show ?case by simp
next
  case (3 sp body dirpath dirnames d st sub rest)
  from "3.prems"(4) have s: "all_nodes ok sub" and r: "all_nodes ok rest" by simp_all
  show ?case
  proof (cases "d \<in> set dirnames")
    case True
    from "3.IH"(1) [OF True "3.prems"(1,2) join_nonempty [OF "3.prems"(3)] s] obtain first
      where f: "os_walk sp body (join dirpath d) sub = Inr first" by blast
    from "3.IH"(2) [OF True f "3.prems"(1,2,3) r] obtain others
      where "walk_subdirs sp body dirpath dirnames rest = Inr others" by blast
    with True f show ?thesis by simp
  next
    case False
    from "3.IH"(3) [OF False "3.prems"(1,2,3) r] False show ?thesis by simp
  qed
next
  case (4 sp body dirpath dirnames n st rd rest)
  then show ?case by simp
next
  case (5 sp body dirpath dirnames n st rest)
  then show ?case by simp
qed

lemma process_files_total:
  "\<forall>p. p \<noteq> [] \<longrightarrow> (\<exists>b. sp p = Inr b) \<Longrightarrow> dirpath \<noteq> [] \<Longrightarrow> \<not> truthy api_key
   \<Longrightarrow> \<forall>e \<in> set entries. decodes e
   \<Longrightarrow> \<exists>r. process_files sp post api_key partial_prompt dirpath entries = Inr r"
proof (induction sp post api_key partial_prompt dirpath entries rule: process_files.induct)
  case (2 sp post api_key partial_prompt dirpath filename st rd rest)
  from "2.prems"(1,2) join_nonempty obtain b where b: "sp (join dirpath filename) = Inr b"
    by blast
  from "2.prems"(4) have "rd \<noteq> ReadDecodeError"
    by (cases rd) auto
  with b "2.prems"(3)
  have "\<exists>r. process_file sp post api_key partial_prompt dirpath filename rd = Inr r"
    by (cases rd) (simp_all add: process_file_def Let_def)
  then obtain r
    where r: "process_file sp post api_key partial_prompt dirpath filename rd = Inr r"
    by blast
  from "2.IH" [OF r "2.prems"(1,2,3)] "2.prems"(4) obtain rs
    where "process_files sp post api_key partial_prompt dirpath rest = Inr rs" by auto
  with r show ?case by simp
qed simp_all

lemma content_scan_completes:
  assumes "w_writable w (''all_python_files_'' @ w_now w @ ''.txt'')"
    and "w_writable w (''all_python_files_'' @ w_now w @ ''.json'')"
    and "\<not> truthy api_key"
    and "\<forall>entries. w_scandir w root_dir = Some entries \<longrightarrow> all_nodes decodes entries"
  shows "\<exists>out. process_all_python_files w root_dir include_patterns ignore_patterns api_key
           partial_prompt = Inr out"
proof -
  define sp where "sp = (\<lambda>path. should_process (w_cwd w) path root_dir include_patterns ignore_patterns)"
  have sp: "\<forall>p. p \<noteq> [] \<longrightarrow> (\<exists>b. sp p = Inr b)"
    by (simp add: sp_def should_process_total)
  have "\<exists>found. walk_root w sp (content_body sp (w_post w) api_key partial_prompt) root_dir
      = Inr found"
  proof (cases "if root_dir = [] then None else w_scandir w root_dir")
    case None
    then show ?thesis by (simp add: walk_root_def)
  next
    case (Some entries)
    then have ne: "root_dir \<noteq> []" and sc: "w_scandir w root_dir = Some entries"
      by (auto split: if_splits)
    have "\<exists>out. os_walk sp (content_body sp (w_post w) api_key partial_prompt) root_dir entries
        = Inr out"
    proof (rule os_walk_total(1) [OF sp _ ne, of decodes])
      show "all_nodes decodes entries" using assms(4) sc by blast
      show "\<forall>p ds es. p \<noteq> [] \<longrightarrow> (\<forall>e \<in> set es. decodes e) \<longrightarrow>
          (\<exists>r. content_body sp (w_post w) api_key partial_prompt p ds es = Inr r)"
      proof (intro allI impI)
        fix p :: string and ds es
        assume p: "p \<noteq> []" and es: "\<forall>e \<in> set es. decodes e"
        from sp p obtain b where "sp p = Inr b" by blast
        moreover from es have "\<forall>e \<in> set (nondirs_of es). decodes e"
          by (blast dest: nondirs_of_subset)
        from process_files_total [OF sp p assms(3) this]
        have "\<exists>r. process_files sp (w_post w) api_key partial_prompt p (nondirs_of es) = Inr r" .
        ultimately show "\<exists>r. content_body sp (w_post w) api_key partial_prompt p ds es = Inr r"
          by (auto simp: content_body_def)
      qed
    qed
    with Some show ?thesis by (simp add: walk_root_def)
  qed
  with assms(1,2) show ?thesis
    by (auto simp: process_all_python_files_def Let_def sp_def)
qed

lemma tree_entries_total:
  "\<forall>p. p \<noteq> [] \<longrightarrow> (\<exists>b. sp p = Inr b) \<Longrightarrow> dirpath \<noteq> []
   \<Longrightarrow> \<forall>e \<in> set es. stat_harmless e
   \<Longrightarrow> \<exists>r. tree_entries sp dirpath es = Inr r"
proof (induction es)
  case Nil
  then show ?case by simp
next
  case (Cons e es)
  from Cons.prems(1,2) join_nonempty obtain b where b: "sp (join dirpath (name_of e)) = Inr b"
    by blast
  from Cons.prems(3) have "stat_harmless e" by simp
  with b have "\<exists>r. tree_entry sp dirpath e = Inr r"
    by (simp add: tree_entry_def Let_def split: stat_result.splits option.splits)
  then obtain r where r: "tree_entry sp dirpath e = Inr r"
    by blast
  from Cons obtain rs where "tree_entries sp dirpath es = Inr rs" by auto
  with r show ?case by simp
qed

lemma tree_scan_completes:
  assumes "w_writable w (''directory_tree_'' @ w_now w @ ''.txt'')"
    and "w_writable w (''directory_tree_'' @ w_now w @ ''.json'')"
    and "\<forall>entries. w_scandir w root_dir = Some entries \<longrightarrow> all_nodes stat_harmless entries"
  shows "\<exists>out. generate_tree_view w root_dir include_patterns ignore_patterns = Inr out"
proof -
  define sp where "sp = (\<lambda>path. should_process (w_cwd w) path root_dir include_patterns ignore_patterns)"
  have sp: "\<forall>p. p \<noteq> [] \<longrightarrow> (\<exists>b. sp p = Inr b)"
    by (simp add: sp_def should_process_total)
  have "\<exists>found. walk_root w sp (tree_body sp) root_dir = Inr found"
  proof (cases "if root_dir = [] then None else w_scandir w root_dir")
    case None
    then show ?thesis by (simp add: walk_root_def)
  next
    case (Some entries)
    then have ne: "root_dir \<noteq> []" and sc: "w_scandir w root_dir = Some entries"
      by (auto split: if_splits)
    have "\<exists>out. os_walk sp (tree_body sp) root_dir entries = Inr out"
    proof (rule os_walk_total(1) [OF sp _ ne, of stat_harmless])
      show "all_nodes stat_harmless entries" using assms(3) sc by blast
      show "\<forall>p ds es. p \<noteq> [] \<longrightarrow> (\<forall>e \<in> set es. stat_harmless e) \<longrightarrow>
          (\<exists>r. tree_body sp p ds es = Inr r)"
      proof (intro allI impI)
        fix p :: string and ds es
        assume p: "p \<noteq> []" and es: "\<forall>e \<in> set es. stat_harmless e"
        from sp p obtain b where b: "sp p = Inr b" by blast
        have "\<forall>e \<in> set (filter (\<lambda>e. name_of e \<in> set ds) (dirs_of es) @ nondirs_of es).
            stat_harmless e"
          using es by (auto simp: dirs_of_def nondirs_of_def)
        from tree_entries_total [OF sp p this] b
        show "\<exists>r. tree_body sp p ds es = Inr r"
          by (auto simp: tree_body_def)
      qed
    qed
    with Some show ?thesis by (simp add: walk_root_def)
  qed
  with assms(1,2) show ?thesis
    by (auto simp: generate_tree_view_def Let_def sp_def)
qed

section \<open>Pruning\<close>

lemma join_valid: "valid_name n \<Longrightarrow> join dirpath n = pre dirpath @ n"
  by (cases n) (auto simp: join_def pre_def valid_name_def startswith_def)

lemma join_valid_open:
  assumes "valid_name n"
  shows "join dirpath n \<noteq> []" and "\<not> endswith (join dirpath n) ''/''"
proof -
  from assms have n: "n \<noteq> []" "last n \<noteq> CHR ''/''"
    by (simp add: valid_name_def, metis valid_name_def last_in_set)
  show "join dirpath n \<noteq> []"
    using n(1) by (simp add: join_valid [OF assms])
  have "last (join dirpath n) = last n"
    using n(1) by (simp add: join_valid [OF assms])
  moreover have "endswith s ''/'' \<Longrightarrow> s \<noteq> [] \<and> last s = CHR ''/''" for s :: string
    by (cases s rule: rev_cases) (auto simp: endswith_def)
  ultimately show "\<not> endswith (join dirpath n) ''/''"
    using n(2) by metis
qed

lemma join_join_valid:
  "valid_name d \<Longrightarrow> valid_name n \<Longrightarrow> join (join dirpath d) n = join dirpath d @ ''/'' @ n"
  using join_valid_open [of d dirpath] by (simp add: join_valid [of n] pre_def)

lemma takeWhile_name:
  "valid_name n \<Longrightarrow> r = [] \<or> hd r = CHR ''/'' \<Longrightarrow> takeWhile (\<lambda>c. c \<noteq> CHR ''/'') (n @ r) = n"
  by (cases r) (auto simp: valid_name_def takeWhile_append)

lemma under_unique:
  assumes "valid_name n" "valid_name n'" "under dirpath n q" "under dirpath n' q"
  shows "n = n'"
proof -
  from assms(3) obtain r where r: "q = pre dirpath @ n @ r" "r = [] \<or> hd r = CHR ''/''"
    by (auto simp: under_def join_valid [OF assms(1)])
  from assms(4) obtain r' where r': "q = pre dirpath @ n' @ r'" "r' = [] \<or> hd r' = CHR ''/''"
    by (auto simp: under_def join_valid [OF assms(2)])
  from r(1) r'(1) have "n @ r = n' @ r'" by simp
  then have "takeWhile (\<lambda>c. c \<noteq> CHR ''/'') (n @ r) = takeWhile (\<lambda>c. c \<noteq> CHR ''/'') (n' @ r')"
    by simp
  then show ?thesis
    using takeWhile_name [OF assms(1) r(2)] takeWhile_name [OF assms(2) r'(2)] by simp
qed

lemma wf_tree_valid: "wf_tree entries \<Longrightarrow> e \<in> set entries \<Longrightarrow> valid_name (name_of e)"
  by (induction entries rule: wf_tree.induct) auto

lemma paths_below_under:
  "wf_tree entries \<Longrightarrow> q \<in> set (paths_below dirpath entries)
   \<Longrightarrow> \<exists>e \<in> set entries. under dirpath (name_of e) q"
proof (induction dirpath entries rule: paths_below.induct)
  case (1 dirpath)
  then show ?case by simp
next
  case (2 dirpath n st rd rest)
  then show ?case by (auto simp: under_def)
next
  case (3 dirpath n st sub rest)
  from "3.prems"(1) have v: "valid_name n" and ws: "wf_tree sub" and wr: "wf_tree rest"
    by simp_all
  from "3.prems"(2) consider "q = join dirpath n" | "q \<in> set (paths_below (join dirpath n) sub)"
    | "q \<in> set (paths_below dirpath rest)"
    by auto
  then show ?case
  proof cases
    case 1
    then show ?thesis by (auto simp: under_def)
  next
    case 2
    from "3.IH"(1) [OF ws 2] obtain e where e: "e \<in> set sub" "under (join dirpath n) (name_of e) q"
      by blast
    from wf_tree_valid [OF ws e(1)] have ve: "valid_name (name_of e)" .
    from e(2) obtain r where "q = join dirpath n @ ''/'' @ name_of e @ r"
      by (auto simp: under_def join_join_valid [OF v ve])
    then have "under dirpath n q"
      by (auto simp: under_def)
    then show ?thesis by auto
  next
    case 3
    from "3.IH"(2) [OF wr 3] show ?thesis by auto
  qed
next
  case (4 dirpath n st rest)
  then show ?case by (auto simp: under_def)
qed

lemma paths_below_longer:
  assumes "wf_tree entries" "q \<in> set (paths_below dirpath entries)"
  shows "length dirpath < length q"
proof -
  from paths_below_under [OF assms] obtain e where e: "e \<in> set entries" "under dirpath (name_of e) q"
    by blast
  from wf_tree_valid [OF assms(1) e(1)] have v: "valid_name (name_of e)" .
  from e(2) obtain r where "q = pre dirpath @ name_of e @ r"
    by (auto simp: under_def join_valid [OF v])
  moreover have "length dirpath \<le> length (pre dirpath)" by (simp add: pre_def)
  moreover have "name_of e \<noteq> []" using v by (simp add: valid_name_def)
  ultimately show ?thesis by (cases "name_of e") auto
qed

lemma kept_paths_below: "set (kept_paths sp dirpath entries) \<subseteq> set (paths_below dirpath entries)"
  by (induction sp dirpath entries rule: kept_paths.induct) auto

lemma pruned_paths_below: "set (pruned_paths sp dirpath entries) \<subseteq> set (paths_below dirpath entries)"
  by (induction sp dirpath entries rule: pruned_paths.induct) auto

lemma under_rest:
  assumes "wf_tree rest" "valid_name n" "n \<notin> set (map name_of rest)"
    and "under dirpath n q"
  shows "q \<notin> set (paths_below dirpath rest)"
proof
  assume "q \<in> set (paths_below dirpath rest)"
  from paths_below_under [OF assms(1) this] obtain e
    where e: "e \<in> set rest" "under dirpath (name_of e) q" by blast
  from under_unique [OF assms(2) wf_tree_valid [OF assms(1) e(1)] assms(4) e(2)]
  show False using assms(3) e(1) by auto
qed

lemma paths_below_sub_under:
  assumes "wf_tree sub" "valid_name n" "q \<in> set (paths_below (join dirpath n) sub)"
  shows "under dirpath n q" and "q \<noteq> join dirpath n"
proof -
  from paths_below_under [OF assms(1,3)] obtain e
    where e: "e \<in> set sub" "under (join dirpath n) (name_of e) q" by blast
  from wf_tree_valid [OF assms(1) e(1)] have ve: "valid_name (name_of e)" .
  from e(2) obtain r where "q = join dirpath n @ ''/'' @ name_of e @ r"
    by (auto simp: under_def join_join_valid [OF assms(2) ve])
  then show "under dirpath n q"
    by (auto simp: under_def)
  from paths_below_longer [OF assms(1,3)] show "q \<noteq> join dirpath n" by auto
qed

lemma kept_pruned_disjoint:
  "wf_tree entries \<Longrightarrow> q \<in> set (kept_paths sp dirpath entries)
   \<Longrightarrow> q \<notin> set (pruned_paths sp dirpath entries)"
proof (induction sp dirpath entries rule: pruned_paths.induct)
  case (1 sp dirpath)
  then show ?case by simp
next
  case (2 sp dirpath n st rd rest)
  from "2.prems"(1) have v: "valid_name n" and nr: "n \<notin> set (map name_of rest)"
    and wr: "wf_tree rest" by simp_all
  show ?case
  proof (cases "q = join dirpath n")
    case True
    then have "under dirpath n q" by (simp add: under_def)
    from under_rest [OF wr v nr this] show ?thesis
      using pruned_paths_below [of sp dirpath rest] by auto
  next
    case False
    with "2.prems"(2) "2.IH" [OF wr] show ?thesis by simp
  qed
next
  case (3 sp dirpath n st sub rest)
  from "3.prems"(1) have v: "valid_name n" and nr: "n \<notin> set (map name_of rest)"
    and ws: "wf_tree sub" and wr: "wf_tree rest" by simp_all
  let ?p = "join dirpath n"
  from "3.prems"(2) consider (self) "q = ?p"
    | (sub) "sp ?p = Inr True" "q \<in> set (kept_paths sp ?p sub)"
    | (rest) "q \<in> set (kept_paths sp dirpath rest)"
    by (auto split: if_splits)
  then show ?case
  proof cases
    case self
    then have u: "under dirpath n q" by (simp add: under_def)
    have "q \<notin> set (paths_below ?p sub)"
      using paths_below_sub_under(2) [OF ws v] self by blast
    moreover have "q \<notin> set (paths_below dirpath rest)"
      by (rule under_rest [OF wr v nr u])
    ultimately show ?thesis
      using pruned_paths_below [of sp ?p sub] pruned_paths_below [of sp dirpath rest] by auto
  next
    case sub
    from sub(2) kept_paths_below have b: "q \<in> set (paths_below ?p sub)" by blast
    from paths_below_sub_under(1) [OF ws v b] have u: "under dirpath n q" .
    have "q \<notin> set (pruned_paths sp ?p sub)"
      by (rule "3.IH"(1) [OF ws sub(2)])
    moreover have "q \<notin> set (paths_below dirpath rest)"
      by (rule under_rest [OF wr v nr u])
    ultimately show ?thesis
      using sub(1) pruned_paths_below [of sp dirpath rest] by auto
  next
    case rest
    from rest kept_paths_below have b: "q \<in> set (paths_below dirpath rest)" by blast
    have "q \<notin> set (paths_below ?p sub)"
    proof
      assume "q \<in> set (paths_below ?p sub)"
      from paths_below_sub_under(1) [OF ws v this] have "under dirpath n q" .
      from under_rest [OF wr v nr this] b show False by simp
    qed
    moreover have "q \<notin> set (pruned_paths sp dirpath rest)"
      by (rule "3.IH"(2) [OF wr rest])
    ultimately show ?thesis
      using pruned_paths_below [of sp ?p sub] by auto
  qed
next
  case (4 sp dirpath n st rest)
  from "4.prems"(1) have v: "valid_name n" and nr: "n \<notin> set (map name_of rest)"
    and wr: "wf_tree rest" by simp_all
  show ?case
  proof (cases "q = join dirpath n")
    case True
    then have "under dirpath n q" by (simp add: under_def)
    from under_rest [OF wr v nr this] show ?thesis
      using pruned_paths_below [of sp dirpath rest] by auto
  next
    case False
    with "4.prems"(2) "4.IH" [OF wr] show ?thesis by simp
  qed
qed

lemma root_not_pruned:
  "wf_tree entries \<Longrightarrow> dirpath \<notin> set (pruned_paths sp dirpath entries)"
  using paths_below_longer [of entries dirpath dirpath] pruned_paths_below [of sp dirpath entries]
  by auto

lemma children_kept: "e \<in> set entries \<Longrightarrow> join dirpath (name_of e) \<in> set (kept_paths sp dirpath entries)"
  by (induction sp dirpath entries rule: kept_paths.induct) auto

lemma os_walk_paths:
  "os_walk sp body dirpath entries = Inr out
   \<Longrightarrow> (\<forall>p ds es r. body p ds es = Inr r
          \<longrightarrow> (\<forall>x \<in> set r. paths x \<subseteq> insert p ((\<lambda>e. join p (name_of e)) ` set es)))
   \<Longrightarrow> \<forall>x \<in> set out. paths x \<subseteq> insert dirpath (set (kept_paths sp dirpath entries))"
  "walk_subdirs sp body dirpath dirnames entries = Inr out
   \<Longrightarrow> (\<forall>p ds es r. body p ds es = Inr r
          \<longrightarrow> (\<forall>x \<in> set r. paths x \<subseteq> insert p ((\<lambda>e. join p (name_of e)) ` set es)))
   \<Longrightarrow> (\<forall>e \<in> set entries. isdir e \<longrightarrow> name_of e \<in> set dirnames
          \<longrightarrow> sp (join dirpath (name_of e)) = Inr True)
   \<Longrightarrow> \<forall>x \<in> set out. paths x \<subseteq> set (kept_paths sp dirpath entries)"
proof (induction sp body dirpath entries and sp body dirpath dirnames entries
    arbitrary: out and out rule: os_walk_walk_subdirs.induct)
  case (1 sp body dirpath entries)
  from "1.prems"(1) obtain dirnames here below
    where p: "prune sp dirpath (map name_of (dirs_of entries)) = Inr dirnames"
      and h: "body dirpath dirnames entries = Inr here"
      and b: "walk_subdirs sp body dirpath dirnames entries = Inr below"
      and out: "out = here @ below"
    by (auto simp: os_walk.simps split: sum.splits)
  have k: "\<forall>e \<in> set entries. isdir e \<longrightarrow> name_of e \<in> set dirnames
      \<longrightarrow> sp (join dirpath (name_of e)) = Inr True"
    using prune_filter [OF p] by auto
  have "\<forall>x \<in> set here. paths x \<subseteq> insert dirpath ((\<lambda>e. join dirpath (name_of e)) ` set entries)"
    using "1.prems"(2) h by blast
  then have "\<forall>x \<in> set here. paths x \<subseteq> insert dirpath (set (kept_paths sp dirpath entries))"
    using children_kept [of _ entries dirpath sp] by blast
  moreover have "\<forall>x \<in> set below. paths x \<subseteq> set (kept_paths sp dirpath entries)"
    using "1.IH" [OF p h b "1.prems"(2) k] .
  ultimately show ?case
    using out by auto
next
  case (2 sp body dirpath dirnames)
  then show ?case by simp
next
  case (3 sp body dirpath dirnames d st sub rest)
  have k: "\<forall>e \<in> set rest. isdir e \<longrightarrow> name_of e \<in> set dirnames
      \<longrightarrow> sp (join dirpath (name_of e)) = Inr True"
    using "3.prems"(3) by simp
  show ?case
  proof (cases "d \<in> set dirnames")
    case True
    with "3.prems"(3) have ok: "sp (join dirpath d) = Inr True" by simp
    from True "3.prems"(1) obtain first others
      where f: "os_walk sp body (join dirpath d) sub = Inr first"
        and r: "walk_subdirs sp body dirpath dirnames rest = Inr others"
        and out: "out = first @ others"
      by (auto split: sum.splits)
    have "\<forall>x \<in> set first. paths x
        \<subseteq> insert (join dirpath d) (set (kept_paths sp (join dirpath d) sub))"
      using "3.IH"(1) [OF True f "3.prems"(2)] .
    moreover have "\<forall>x \<in> set others. paths x \<subseteq> set (kept_paths sp dirpath rest)"
      using "3.IH"(2) [OF True f r "3.prems"(2) k] .
    ultimately show ?thesis
      using out ok by auto
  next
    case False
    with "3.prems"(1) have r: "walk_subdirs sp body dirpath dirnames rest = Inr out" by simp
    have "\<forall>x \<in> set out. paths x \<subseteq> set (kept_paths sp dirpath rest)"
      using "3.IH"(3) [OF False r "3.prems"(2) k] .
    then show ?thesis by auto
  qed
next
  case (4 sp body dirpath dirnames n st rd rest)
  from "4.prems" have "\<forall>x \<in> set out. paths x \<subseteq> set (kept_paths sp dirpath rest)"
    using "4.IH" by simp
  then show ?case by auto
next
  case (5 sp body dirpath dirnames n st rest)
  from "5.prems" have "\<forall>x \<in> set out. paths x \<subseteq> set (kept_paths sp dirpath rest)"
    using "5.IH" by simp
  then show ?case by auto
qed

lemma process_file_path:
  "process_file sp post api_key partial_prompt dirpath filename rd = Inr (Some x)
   \<Longrightarrow> map_of (snd x) ''filepath'' = Some (join dirpath filename)"
  by (auto simp: process_file_def Let_def
      split: sum.splits if_splits read_result.splits prod.splits)

lemma process_files_paths:
  "process_files sp post api_key partial_prompt dirpath entries = Inr out \<Longrightarrow> x \<in> set out
   \<Longrightarrow> \<exists>e \<in> set entries. map_of (snd x) ''filepath'' = Some (join dirpath (name_of e))"
proof (induction sp post api_key partial_prompt dirpath entries arbitrary: out
    rule: process_files.induct)
  case (2 sp post api_key partial_prompt dirpath filename st rd rest)
  from "2.prems"(1) obtain r rs
    where r: "process_file sp post api_key partial_prompt dirpath filename rd = Inr r"
      and rs: "process_files sp post api_key partial_prompt dirpath rest = Inr rs"
      and out: "out = (case r of None \<Rightarrow> rs | Some y \<Rightarrow> y # rs)"
    by (auto split: sum.splits)
  from out "2.prems"(2) consider "r = Some x" | "x \<in> set rs"
    by (cases r) auto
  then show ?case
  proof cases
    case 1
    with r process_file_path show ?thesis by fastforce
  next
    case 2
    from "2.IH" [OF r rs 2] show ?thesis by auto
  qed
qed auto

lemma content_body_paths:
  "content_body sp post api_key partial_prompt dirpath dirnames entries = Inr out
   \<Longrightarrow> x \<in> set out
   \<Longrightarrow> {fp. map_of (snd x) ''filepath'' = Some fp}
       \<subseteq> insert dirpath ((\<lambda>e. join dirpath (name_of e)) ` set entries)"
  by (auto simp: content_body_def split: sum.splits if_splits
      dest!: process_files_paths dest: nondirs_of_subset)

lemma entry_record_name:
  "map_of (entry_record e) ''name'' = Some n \<Longrightarrow> n = name_of e"
  by (auto split: stat_result.splits option.splits)

lemma tree_body_paths:
  assumes "tree_body sp dirpath dirnames entries = Inr out" and "x \<in> set out"
  shows "section_paths (snd x) \<subseteq> insert dirpath ((\<lambda>e. join dirpath (name_of e)) ` set entries)"
proof -
  from assms obtain listed
    where l: "tree_entries sp dirpath
                (filter (\<lambda>e. name_of e \<in> set dirnames) (dirs_of entries) @ nondirs_of entries)
              = Inr listed"
      and x: "snd x = \<lparr>directory = dirpath, contents = map snd listed\<rparr>"
    by (auto simp: tree_body_def split: sum.splits if_splits)
  have rec: "\<exists>e \<in> set entries. r = entry_record e" if "r \<in> set (map snd listed)" for r
    using that tree_entries_listed [OF l]
    by (auto simp: dirs_of_def nondirs_of_def simp del: entry_record.simps entry_line.simps)
  show ?thesis
  proof
    fix y
    assume "y \<in> section_paths (snd x)"
    then consider "y = dirpath"
      | n r where "y = join dirpath n" "r \<in> set (map snd listed)" "map_of r ''name'' = Some n"
      unfolding section_paths_def x by auto
    then show "y \<in> insert dirpath ((\<lambda>e. join dirpath (name_of e)) ` set entries)"
    proof cases
      case 1
      then show ?thesis by simp
    next
      case 2
      from rec [OF 2(2)] obtain e where e: "e \<in> set entries" "r = entry_record e" by blast
      from 2(3) e(2) have "n = name_of e"
        by (simp only: entry_record_name)
      with 2(1) e(1) show ?thesis by blast
    qed
  qed
qed

text \<open>
  Claim C2. In a well-formed tree, the path of a descendant of a subdirectory that the
  Pattern Matcher rejects is the \<^verbatim>\<open>filepath\<close> of no File Record of the Content Reporter,
  and neither the directory of a section of the Tree Reporter nor the path of an entry of
  one, also when the descendant itself would pass the Matcher.
\<close>

theorem pruned_subtree_absent:
  assumes "wf_tree entries"
    and "w_scandir w root_dir = Some entries"
    and "q \<in> set (pruned_paths
            (\<lambda>path. should_process (w_cwd w) path root_dir include_patterns ignore_patterns)
            root_dir entries)"
  shows "(\<forall>transcript overview_data.
            process_all_python_files w root_dir include_patterns ignore_patterns api_key
              partial_prompt = Inr (transcript, overview_data)
            \<longrightarrow> (\<forall>file_entry \<in> set overview_data. map_of file_entry ''filepath'' \<noteq> Some q))
         \<and> (\<forall>text tree_data.
            generate_tree_view w root_dir include_patterns ignore_patterns = Inr (text, tree_data)
            \<longrightarrow> (\<forall>info \<in> set tree_data.
                   directory info \<noteq> q
                   \<and> (\<forall>e \<in> set (contents info). \<forall>n. map_of e ''name'' = Some n
                        \<longrightarrow> join (directory info) n \<noteq> q)))"
proof -
  define sp where "sp = (\<lambda>path. should_process (w_cwd w) path root_dir include_patterns ignore_patterns)"
  from assms(3) have q: "q \<in> set (pruned_paths sp root_dir entries)"
    by (simp add: sp_def)
  have out: "q \<notin> insert root_dir (set (kept_paths sp root_dir entries))"
    using kept_pruned_disjoint [OF assms(1), of q sp root_dir] root_not_pruned [OF assms(1), of root_dir sp] q
    by auto
  have content: "map_of file_entry ''filepath'' \<noteq> Some q"
    if run: "process_all_python_files w root_dir include_patterns ignore_patterns api_key
          partial_prompt = Inr (transcript, overview_data)"
      and m: "file_entry \<in> set overview_data"
    for transcript overview_data file_entry
  proof (cases "root_dir = []")
    case True
    with run m show ?thesis
      by (auto simp: process_all_python_files_def walk_root_def Let_def split: if_splits)
  next
    case False
    with run assms(2) obtain found
      where f: "os_walk sp (content_body sp (w_post w) api_key partial_prompt) root_dir entries
                = Inr found"
        and d: "overview_data = map snd found"
      by (auto simp: process_all_python_files_def walk_root_def Let_def sp_def
          split: if_splits sum.splits)
    from f have "\<forall>x \<in> set found. {fp. map_of (snd x) ''filepath'' = Some fp}
        \<subseteq> insert root_dir (set (kept_paths sp root_dir entries))"
      by (rule os_walk_paths(1)) (blast dest: content_body_paths)
    with m d out show ?thesis by auto
  qed
  have tree: "directory info \<noteq> q
        \<and> (\<forall>e \<in> set (contents info). \<forall>n. map_of e ''name'' = Some n
              \<longrightarrow> join (directory info) n \<noteq> q)"
    if run: "generate_tree_view w root_dir include_patterns ignore_patterns
          = Inr (tree_text, tree_data)"
      and m: "info \<in> set tree_data"
    for tree_text tree_data info
  proof (cases "root_dir = []")
    case True
    with run m show ?thesis
      by (auto simp: generate_tree_view_def walk_root_def Let_def split: if_splits)
  next
    case False
    with run assms(2) obtain found
      where f: "os_walk sp (tree_body sp) root_dir entries = Inr found"
        and d: "tree_data = map snd found"
      by (auto simp: generate_tree_view_def walk_root_def Let_def sp_def
          split: if_splits sum.splits)
    from f have "\<forall>x \<in> set found. section_paths (snd x)
        \<subseteq> insert root_dir (set (kept_paths sp root_dir entries))"
      by (rule os_walk_paths(1)) (blast dest: tree_body_paths)
    with m d have "section_paths info \<subseteq> insert root_dir (set (kept_paths sp root_dir entries))"
      by auto
    with out have "q \<notin> section_paths info" by blast
    then show ?thesis
      by (auto simp: section_paths_def)
  qed
  from content tree show ?thesis by blast
qed

theorem pruned_subtree_absent_witness:
  "wf_tree sample_tree
   \<and> w_scandir sample_world ''proj'' = Some sample_tree
   \<and> pruned_paths (\<lambda>path. should_process (w_cwd sample_world) path ''proj'' [] default_ignore_patterns)
        ''proj'' sample_tree = [''proj/.hidden/b.py'', ''proj/venv/lib.py'']
   \<and> should_process (w_cwd sample_world) ''proj/venv'' ''proj'' [] default_ignore_patterns = Inr False
   \<and> should_process (w_cwd sample_world) ''proj/venv/lib.py'' ''proj'' [] default_ignore_patterns = Inr True
   \<and> map_sum id (map (\<lambda>file_entry. map_of file_entry ''filepath'') \<circ> snd)
        (process_all_python_files sample_world ''proj'' [] default_ignore_patterns None None)
      = Inr [Some ''proj/a.py'', Some ''proj/src/c.py'']
   \<and> map_sum id (map (\<lambda>info. (directory info, map (\<lambda>e. map_of e ''name'') (contents info))) \<circ> snd)
        (generate_tree_view sample_world ''proj'' [] default_ignore_patterns)
      = Inr [(''proj'', [Some ''src'', Some ''a.py'', Some ''notes.txt'']),
             (''proj/src'', [Some ''c.py'', Some ''d.py''])]"
proof -
  let ?sp = "\<lambda>path. should_process (w_cwd sample_world) path ''proj'' [] default_ignore_patterns"
  have w: "wf_tree sample_tree"
    by (simp add: sample_tree_def valid_name_def)
  have s: "w_scandir sample_world ''proj'' = Some sample_tree"
    by (simp add: sample_world_def)
  have p: "pruned_paths ?sp ''proj'' sample_tree = [''proj/.hidden/b.py'', ''proj/venv/lib.py'']"
    by code_simp
  have q: "''proj/venv/lib.py'' \<in> set (pruned_paths ?sp ''proj'' sample_tree)"
    by (simp add: p)
  have v: "should_process (w_cwd sample_world) ''proj/venv'' ''proj'' [] default_ignore_patterns = Inr False"
    "should_process (w_cwd sample_world) ''proj/venv/lib.py'' ''proj'' [] default_ignore_patterns = Inr True"
    by code_simp+
  have c: "map_sum id (map (\<lambda>file_entry. map_of file_entry ''filepath'') \<circ> snd)
        (process_all_python_files sample_world ''proj'' [] default_ignore_patterns None None)
      = Inr [Some ''proj/a.py'', Some ''proj/src/c.py'']"
    by code_simp
  have t: "map_sum id (map (\<lambda>info. (directory info, map (\<lambda>e. map_of e ''name'') (contents info))) \<circ> snd)
        (generate_tree_view sample_world ''proj'' [] default_ignore_patterns)
      = Inr [(''proj'', [Some ''src'', Some ''a.py'', Some ''notes.txt'']),
             (''proj/src'', [Some ''c.py'', Some ''d.py''])]"
    by code_simp
  from pruned_subtree_absent [OF w s q, of None None] w s p v c t show ?thesis
    by simp
qed

end
